theory Spec2Isabelle
  imports Complex_Main
begin

section \<open>Numbers and errors of the Python source\<close>

text \<open>
  The scheduler \<^verbatim>\<open>CosineAnnealingWarmupRestarts\<close> of \<^verbatim>\<open>bkh_pytorch_utils/py/utils.py\<close>
  works on Python integers (\<^verbatim>\<open>first_cycle_steps\<close>, \<^verbatim>\<open>warmup_steps\<close>, \<^verbatim>\<open>last_epoch\<close>,
  the \<^verbatim>\<open>epoch\<close> argument, \<^verbatim>\<open>cycle\<close>) and on Python floats (\<^verbatim>\<open>cycle_mult\<close>, the rates,
  \<^verbatim>\<open>gamma\<close>). Integers are \<^typ>\<open>int\<close>. Floats are \<^typ>\<open>real\<close>: arithmetic is exact, the
  rounding of IEEE doubles is not part of the model. \<^verbatim>\<open>step_in_cycle\<close> and
  \<^verbatim>\<open>cur_cycle_steps\<close> start as integers, but the source assigns them float expressions
  (line 87, and line 76 after it), so they are reals here.
\<close>

datatype error = AssertionError | ZeroDivisionError | ValueError | KeyError

text \<open>\<^verbatim>\<open>int(x)\<close> on a float truncates towards zero.\<close>

definition py_int :: "real \<Rightarrow> int" where
  "py_int x = (if 0 \<le> x then \<lfloor>x\<rfloor> else \<lceil>x\<rceil>)"

text \<open>\<^verbatim>\<open>a / b\<close> raises \<^verbatim>\<open>ZeroDivisionError\<close> when the divisor is zero.\<close>

definition py_div :: "real \<Rightarrow> real \<Rightarrow> error + real" where
  "py_div a b = (if b = 0 then Inl ZeroDivisionError else Inr (a / b))"

text \<open>
  \<^verbatim>\<open>math.log(x, base)\<close> is \<^verbatim>\<open>log(x) / log(base)\<close>: a \<^verbatim>\<open>ValueError\<close> (math domain error)
  when an argument is not positive, a \<^verbatim>\<open>ZeroDivisionError\<close> when the base is one.
\<close>

definition math_log :: "real \<Rightarrow> real \<Rightarrow> error + real" where
  "math_log x b =
     (if x \<le> 0 \<or> b \<le> 0 then Inl ValueError
      else if b = 1 then Inl ZeroDivisionError
      else Inr (ln x / ln b))"

text \<open>\<^verbatim>\<open>x ** n\<close> for a float and an integer: zero to a negative power raises.\<close>

definition py_pow :: "real \<Rightarrow> int \<Rightarrow> error + real" where
  "py_pow x n = (if x = 0 \<and> n < 0 then Inl ZeroDivisionError else Inr (x powi n))"

text \<open>A list comprehension whose body may raise: the first raise ends it.\<close>

fun map_err :: "('a \<Rightarrow> error + 'b) \<Rightarrow> 'a list \<Rightarrow> error + 'b list" where
  "map_err f [] = Inr []"
| "map_err f (x # xs) =
     (case f x of
        Inl e \<Rightarrow> Inl e
      | Inr y \<Rightarrow> (case map_err f xs of Inl e \<Rightarrow> Inl e | Inr ys \<Rightarrow> Inr (y # ys)))"

section \<open>The scheduler object\<close>

text \<open>
  One field for each attribute the class sets. \<open>group_lrs\<close> holds
  \<^verbatim>\<open>param_group['lr']\<close> of each entry of \<^verbatim>\<open>self.optimizer.param_groups\<close>, in order.
\<close>

record sched =
  first_cycle_steps :: int
  cycle_mult :: real
  base_max_lr :: real
  max_lr :: real
  min_lr :: real
  warmup_steps :: int
  gamma :: real
  cur_cycle_steps :: real
  cycle :: int
  step_in_cycle :: real
  last_epoch :: int
  base_lrs :: "real list"
  group_lrs :: "real list"

text \<open>
  A call either returns or raises; a raise leaves the object as the statements before it
  have mutated it, so both outcomes carry the object.
\<close>

datatype outcome = Ok sched | Raised error sched

fun state_of :: "outcome \<Rightarrow> sched" where
  "state_of (Ok s) = s"
| "state_of (Raised e s) = s"

fun is_ok :: "outcome \<Rightarrow> bool" where
  "is_ok (Ok s) = True"
| "is_ok (Raised e s) = False"

subsection \<open>\<^verbatim>\<open>init_lr\<close> (lines 51-55)\<close>

definition init_lr :: "sched \<Rightarrow> sched" where
  "init_lr s =
     s\<lparr>base_lrs := map (\<lambda>g. min_lr s) (group_lrs s),
       group_lrs := map (\<lambda>g. min_lr s) (group_lrs s)\<rparr>"

subsection \<open>\<^verbatim>\<open>get_lr\<close> (lines 57-68)\<close>

definition warmup_lr :: "sched \<Rightarrow> real \<Rightarrow> error + real" where
  "warmup_lr s base_lr =
     (case py_div ((max_lr s - base_lr) * step_in_cycle s) (real_of_int (warmup_steps s)) of
        Inl e \<Rightarrow> Inl e
      | Inr q \<Rightarrow> Inr (q + base_lr))"

definition cosine_lr :: "sched \<Rightarrow> real \<Rightarrow> error + real" where
  "cosine_lr s base_lr =
     (case py_div (pi * (step_in_cycle s - real_of_int (warmup_steps s)))
                  (cur_cycle_steps s - real_of_int (warmup_steps s)) of
        Inl e \<Rightarrow> Inl e
      | Inr q \<Rightarrow> Inr (base_lr + (max_lr s - base_lr) * (1 + cos q) / 2))"

definition get_lr :: "sched \<Rightarrow> error + real list" where
  "get_lr s =
     (if cycle s > 0 \<and> cycle_mult s = 0 then Inr (base_lrs s)
      else if step_in_cycle s = -1 then Inr (base_lrs s)
      else if step_in_cycle s < real_of_int (warmup_steps s)
        then map_err (warmup_lr s) (base_lrs s)
      else map_err (cosine_lr s) (base_lrs s))"

subsection \<open>\<^verbatim>\<open>step\<close> (lines 70-95)\<close>

text \<open>
  Lines 71-90 place the schedule and fix the value of \<^verbatim>\<open>epoch\<close>. The implicit branch
  cannot raise. The explicit branch raises only before its first assignment: on the
  division or modulo by \<^verbatim>\<open>first_cycle_steps\<close> when that is zero, and in \<^verbatim>\<open>math.log\<close>.
  Once \<^verbatim>\<open>math.log\<close> has returned, \<^verbatim>\<open>cycle_mult\<close> is positive and not one, so the power and
  the division of lines 86-87 do not raise.
\<close>

definition place_implicit :: "sched \<Rightarrow> sched" where
  "place_implicit s =
     (let s1 = s\<lparr>step_in_cycle := step_in_cycle s + 1\<rparr> in
      if step_in_cycle s1 \<ge> cur_cycle_steps s1 then
        s1\<lparr>cycle := cycle s1 + 1,
           step_in_cycle := step_in_cycle s1 - cur_cycle_steps s1,
           cur_cycle_steps :=
             real_of_int (py_int ((cur_cycle_steps s1 - real_of_int (warmup_steps s1)) * cycle_mult s1)
                          + warmup_steps s1)\<rparr>
      else s1)"

definition place_explicit :: "sched \<Rightarrow> int \<Rightarrow> error + sched" where
  "place_explicit s epoch =
     (if epoch \<ge> first_cycle_steps s then
        if cycle_mult s = 1 then
          if first_cycle_steps s = 0 then Inl ZeroDivisionError
          else Inr (s\<lparr>step_in_cycle := real_of_int (epoch mod first_cycle_steps s),
                      cycle := epoch div first_cycle_steps s\<rparr>)
        else
          if first_cycle_steps s = 0 then Inl ZeroDivisionError
          else
            (case math_log (real_of_int epoch / real_of_int (first_cycle_steps s) * (cycle_mult s - 1) + 1)
                           (cycle_mult s) of
               Inl e \<Rightarrow> Inl e
             | Inr l \<Rightarrow>
                 (let n = py_int l in
                  Inr (s\<lparr>cycle := n,
                         step_in_cycle :=
                           real_of_int (epoch -
                             py_int (real_of_int (first_cycle_steps s) * (cycle_mult s powi n - 1)
                                     / (cycle_mult s - 1))),
                         cur_cycle_steps := real_of_int (first_cycle_steps s) * cycle_mult s powi n\<rparr>)))
      else
        Inr (s\<lparr>cur_cycle_steps := real_of_int (first_cycle_steps s),
               step_in_cycle := real_of_int epoch\<rparr>))"

text \<open>
  \<^verbatim>\<open>zip(self.optimizer.param_groups, self.get_lr())\<close>: the groups that have a rate in the
  list take it, the others keep theirs.
\<close>

fun assign_lrs :: "real list \<Rightarrow> real list \<Rightarrow> real list" where
  "assign_lrs (g # gs) (r # rs) = r # assign_lrs gs rs"
| "assign_lrs gs [] = gs"
| "assign_lrs [] rs = []"

text \<open>Lines 92-95, after the placement: the peak rate, the counter, the rates.\<close>

definition finish_step :: "sched \<Rightarrow> int \<Rightarrow> outcome" where
  "finish_step s1 epoch =
     (case py_pow (gamma s1) (cycle s1) of
        Inl e \<Rightarrow> Raised e s1
      | Inr g \<Rightarrow>
          (let s2 = s1\<lparr>max_lr := base_max_lr s1 * g, last_epoch := epoch\<rparr> in
           case get_lr s2 of
             Inl e \<Rightarrow> Raised e s2
           | Inr rs \<Rightarrow> Ok (s2\<lparr>group_lrs := assign_lrs (group_lrs s2) rs\<rparr>)))"

text \<open>\<^verbatim>\<open>step(epoch)\<close>; \<open>None\<close> is the call without an argument.\<close>

definition step :: "sched \<Rightarrow> int option \<Rightarrow> outcome" where
  "step s arg =
     (case arg of
        None \<Rightarrow> finish_step (place_implicit s) (last_epoch s + 1)
      | Some epoch \<Rightarrow>
          (case place_explicit s epoch of
             Inl e \<Rightarrow> Raised e s
           | Inr s1 \<Rightarrow> finish_step s1 epoch))"

text \<open>A sequence of calls; a raise ends the run.\<close>

fun run :: "sched \<Rightarrow> int option list \<Rightarrow> outcome" where
  "run s [] = Ok s"
| "run s (a # as) = (case step s a of Ok s' \<Rightarrow> run s' as | Raised e s' \<Rightarrow> Raised e s')"

text \<open>\<open>steps n s\<close>: \<open>n\<close> calls of \<^verbatim>\<open>step()\<close> without an argument.\<close>

definition steps :: "nat \<Rightarrow> sched \<Rightarrow> outcome" where
  "steps n s = run s (replicate n None)"

subsection \<open>\<^verbatim>\<open>__init__\<close> (lines 22-49)\<close>

text \<open>
  What the constructor reads of an entry of \<^verbatim>\<open>optimizer.param_groups\<close>: its rate \<^verbatim>\<open>'lr'\<close>
  and, when the key is there, \<^verbatim>\<open>'initial_lr'\<close>. The groups of a new optimizer have no
  \<^verbatim>\<open>'initial_lr'\<close>.
\<close>

record group =
  lr :: real
  initial_lr :: "real option"

definition new_group :: "real \<Rightarrow> group" where
  "new_group r = \<lparr>lr = r, initial_lr = None\<rparr>"

fun lacks_initial_lr :: "group list \<Rightarrow> bool" where
  "lacks_initial_lr [] = False"
| "lacks_initial_lr (g # gs) = (case initial_lr g of None \<Rightarrow> True | Some v \<Rightarrow> lacks_initial_lr gs)"

definition initial_of :: "group \<Rightarrow> real" where
  "initial_of g = (case initial_lr g of None \<Rightarrow> lr g | Some v \<Rightarrow> v)"

text \<open>
  Line 46 calls the constructor of \<^verbatim>\<open>torch.optim.lr_scheduler._LRScheduler\<close>, library code
  that is not part of this repository. Its argument is taken to be an optimizer, so its
  type test passes. With \<^verbatim>\<open>last_epoch == -1\<close> it gives every group that
  has none an \<^verbatim>\<open>'initial_lr'\<close> equal to its rate; with another \<^verbatim>\<open>last_epoch\<close> it raises
  \<^verbatim>\<open>KeyError\<close> when a group has no \<^verbatim>\<open>'initial_lr'\<close>. It then sets \<^verbatim>\<open>base_lrs\<close> to the
  \<^verbatim>\<open>'initial_lr'\<close> of the groups, stores \<^verbatim>\<open>last_epoch\<close> and, in current releases of torch,
  ends with \<^verbatim>\<open>self._initial_step()\<close>, which makes one call of \<^verbatim>\<open>self.step()\<close>: the \<^verbatim>\<open>step\<close>
  above, run before line 49 overwrites the rates. The flag \<open>base_steps\<close> says whether the
  base constructor makes that call; the installed library decides it, and \<open>True\<close> is what
  torch does. A raise inside the constructor leaves no object.
\<close>

text \<open>The constructor once its checks have passed: lines 34-49.\<close>

definition build ::
  "bool \<Rightarrow> group list \<Rightarrow> int \<Rightarrow> real \<Rightarrow> real \<Rightarrow> real \<Rightarrow> int \<Rightarrow> real \<Rightarrow> int \<Rightarrow> error + sched" where
  "build base_steps groups first_cycle_steps' cycle_mult' max_lr' min_lr' warmup_steps' gamma' last_epoch' =
     (let s0 = \<lparr>first_cycle_steps = first_cycle_steps',
                cycle_mult = cycle_mult',
                base_max_lr = max_lr',
                max_lr = max_lr',
                min_lr = min_lr',
                warmup_steps = warmup_steps',
                gamma = gamma',
                cur_cycle_steps = real_of_int first_cycle_steps',
                cycle = 0,
                step_in_cycle = real_of_int last_epoch',
                last_epoch = last_epoch',
                base_lrs = map initial_of groups,
                group_lrs = map lr groups\<rparr> in
      case (if base_steps then step s0 None else Ok s0) of
        Raised e s \<Rightarrow> Inl e
      | Ok s1 \<Rightarrow> Inr (init_lr s1))"

definition init ::
  "bool \<Rightarrow> group list \<Rightarrow> int \<Rightarrow> real \<Rightarrow> real \<Rightarrow> real \<Rightarrow> int \<Rightarrow> real \<Rightarrow> int \<Rightarrow> error + sched" where
  "init base_steps groups first_cycle_steps' cycle_mult' max_lr' min_lr' warmup_steps' gamma' last_epoch' =
     (if \<not> warmup_steps' < first_cycle_steps' then Inl AssertionError
      else if last_epoch' = -1 then
        build base_steps groups first_cycle_steps' cycle_mult' max_lr' min_lr' warmup_steps' gamma' last_epoch'
      else if lacks_initial_lr groups then Inl KeyError
      else
        build base_steps groups first_cycle_steps' cycle_mult' max_lr' min_lr' warmup_steps' gamma' last_epoch')"

section \<open>Sequences of calls, as the properties speak of them\<close>

text \<open>
  Stepping without an argument until the counter \<^verbatim>\<open>last_epoch\<close> reaches \<open>t\<close>: every such call
  adds one to the counter, so this is \<open>t - last_epoch\<close> calls.
\<close>

definition advance_to :: "int \<Rightarrow> sched \<Rightarrow> outcome" where
  "advance_to t s = steps (nat (t - last_epoch s)) s"

text \<open>The objects met along a run, the starting one first; a raise ends the list.\<close>

fun trace :: "sched \<Rightarrow> int option list \<Rightarrow> sched list" where
  "trace s [] = [s]"
| "trace s (a # as) = s # (case step s a of Ok s' \<Rightarrow> trace s' as | Raised e s' \<Rightarrow> [])"

text \<open>
  The arguments of a run never ask for a step before the counter: \<open>c\<close> is the counter
  before the first call.
\<close>

fun forward_args :: "int \<Rightarrow> int option list \<Rightarrow> bool" where
  "forward_args c [] = True"
| "forward_args c (None # as) = forward_args (c + 1) as"
| "forward_args c (Some t # as) = (c \<le> t \<and> forward_args t as)"


text \<open>
  A call whose rate query does not divide by a zero \<^verbatim>\<open>warmup_steps\<close> before the first
  restart: no argument, or a target in the first cycle that, when \<^verbatim>\<open>warmup_steps\<close> is zero,
  is not below \<open>-1\<close>.
\<close>

fun safe_target :: "sched \<Rightarrow> int option \<Rightarrow> bool" where
  "safe_target s None = True"
| "safe_target s (Some t) =
     (t < first_cycle_steps s \<and> (if warmup_steps s = 0 then -1 \<le> t else True))"

text \<open>What a call of \<^verbatim>\<open>step\<close> never assigns, and the number of groups.\<close>

definition same_setup :: "sched \<Rightarrow> sched \<Rightarrow> bool" where
  "same_setup s s' \<longleftrightarrow>
     first_cycle_steps s' = first_cycle_steps s \<and> cycle_mult s' = cycle_mult s \<and>
     base_max_lr s' = base_max_lr s \<and> min_lr s' = min_lr s \<and>
     warmup_steps s' = warmup_steps s \<and> gamma s' = gamma s \<and>
     base_lrs s' = base_lrs s \<and> length (group_lrs s') = length (group_lrs s)"

text \<open>
  With \<^verbatim>\<open>cycle_mult == 1\<close> every cycle has \<^verbatim>\<open>first_cycle_steps\<close> steps: the position is the
  counter modulo that length, until the first call the object is at \<open>-1\<close>.
\<close>

definition on_unit_grid :: "sched \<Rightarrow> bool" where
  "on_unit_grid s \<longleftrightarrow>
     cycle_mult s = 1 \<and> 0 < first_cycle_steps s \<and> warmup_steps s < first_cycle_steps s \<and>
     cur_cycle_steps s = real_of_int (first_cycle_steps s) \<and> -1 \<le> last_epoch s \<and>
     step_in_cycle s = (if last_epoch s = -1 then -1
                        else real_of_int (last_epoch s mod first_cycle_steps s)) \<and>
     cycle s = (if last_epoch s = -1 then 0 else last_epoch s div first_cycle_steps s) \<and>
     length (group_lrs s) = length (base_lrs s)"

section \<open>Lists of rates\<close>

lemma map_err_replicate:
  "map_err f (replicate n x) =
     (if n = 0 then Inr [] else case f x of Inl e \<Rightarrow> Inl e | Inr y \<Rightarrow> Inr (replicate n y))"
  by (induction n) (auto split: sum.splits)

lemma map_err_Inr:
  "(\<And>x. x \<in> set xs \<Longrightarrow> f x = Inr (h x)) \<Longrightarrow> map_err f xs = Inr (map h xs)"
  by (induction xs) auto

lemma map_err_Inl:
  "map_err f xs = Inl e \<Longrightarrow> \<exists>x \<in> set xs. f x = Inl e"
  by (induction xs) (auto split: sum.splits)

lemma map_err_length:
  "map_err f xs = Inr ys \<Longrightarrow> length ys = length xs"
  by (induction xs arbitrary: ys) (auto split: sum.splits)

lemma assign_lrs_same_length:
  "length gs = length rs \<Longrightarrow> assign_lrs gs rs = rs"
  by (induction gs rs rule: assign_lrs.induct) auto

lemma assign_lrs_length:
  "length (assign_lrs gs rs) = length gs"
  by (induction gs rs rule: assign_lrs.induct) auto

section \<open>The rate query and the end of a step\<close>

lemma warmup_lr_group_lrs [simp]: "warmup_lr (s\<lparr>group_lrs := x\<rparr>) = warmup_lr s"
  by (rule ext) (simp add: warmup_lr_def split: sum.splits)

lemma cosine_lr_group_lrs [simp]: "cosine_lr (s\<lparr>group_lrs := x\<rparr>) = cosine_lr s"
  by (rule ext) (simp add: cosine_lr_def split: sum.splits)

lemma get_lr_group_lrs [simp]: "get_lr (s\<lparr>group_lrs := x\<rparr>) = get_lr s"
  by (simp add: get_lr_def)

lemma get_lr_length: "get_lr s = Inr rs \<Longrightarrow> length rs = length (base_lrs s)"
  by (auto simp add: get_lr_def split: if_splits dest: map_err_length)

lemma get_lr_error: "get_lr s = Inl e \<Longrightarrow> e = ZeroDivisionError"
  by (auto simp add: get_lr_def warmup_lr_def cosine_lr_def py_div_def
      split: if_splits sum.splits dest!: map_err_Inl)

lemma get_lr_returns:
  assumes "step_in_cycle s = -1 \<or> 0 \<le> step_in_cycle s"
    and "(0 < cycle s \<and> cycle_mult s = 0) \<or> cur_cycle_steps s \<noteq> real_of_int (warmup_steps s)"
  shows "\<exists>rs. get_lr s = Inr rs"
proof (cases "(0 < cycle s \<and> cycle_mult s = 0) \<or> step_in_cycle s = -1")
  case True
  then show ?thesis by (auto simp add: get_lr_def)
next
  case False
  with assms have "0 \<le> step_in_cycle s" "cur_cycle_steps s \<noteq> real_of_int (warmup_steps s)" by auto
  then show ?thesis using False
    by (auto simp add: get_lr_def warmup_lr_def cosine_lr_def py_div_def intro!: exI map_err_Inr)
qed

lemma finish_step_Ok:
  assumes "finish_step s1 epoch = Ok s'"
  shows "\<exists>rs. get_lr s' = Inr rs \<and>
           s' = s1\<lparr>max_lr := base_max_lr s1 * gamma s1 powi cycle s1, last_epoch := epoch,
                   group_lrs := assign_lrs (group_lrs s1) rs\<rparr>"
  using assms
  by (auto simp add: finish_step_def py_pow_def Let_def split: sum.splits if_splits)

lemma finish_step_returns:
  assumes "gamma s1 \<noteq> 0 \<or> 0 \<le> cycle s1"
    and "get_lr (s1\<lparr>max_lr := base_max_lr s1 * gamma s1 powi cycle s1, last_epoch := epoch\<rparr>) = Inr rs"
  shows "finish_step s1 epoch =
          Ok (s1\<lparr>max_lr := base_max_lr s1 * gamma s1 powi cycle s1, last_epoch := epoch,
                 group_lrs := assign_lrs (group_lrs s1) rs\<rparr>)"
  using assms by (auto simp add: finish_step_def py_pow_def Let_def)

lemma finish_step_position:
  "cycle (state_of (finish_step s1 epoch)) = cycle s1 \<and>
   step_in_cycle (state_of (finish_step s1 epoch)) = step_in_cycle s1 \<and>
   cur_cycle_steps (state_of (finish_step s1 epoch)) = cur_cycle_steps s1"
  by (auto simp add: finish_step_def py_pow_def Let_def split: sum.splits if_splits)

lemma finish_step_max_lr:
  "gamma s1 \<noteq> 0 \<or> 0 \<le> cycle s1 \<Longrightarrow>
   max_lr (state_of (finish_step s1 epoch)) = base_max_lr s1 * gamma s1 powi cycle s1 \<and>
   last_epoch (state_of (finish_step s1 epoch)) = epoch"
  by (auto simp add: finish_step_def py_pow_def Let_def split: sum.splits if_splits)

lemma finish_step_error: "finish_step s1 epoch = Raised e s' \<Longrightarrow> e = ZeroDivisionError"
  by (auto simp add: finish_step_def py_pow_def Let_def split: sum.splits if_splits dest: get_lr_error)

section \<open>One call of step\<close>

lemma same_setup_refl [simp]: "same_setup s s"
  by (simp add: same_setup_def)

lemma same_setup_trans: "same_setup s s' \<Longrightarrow> same_setup s' s'' \<Longrightarrow> same_setup s s''"
  by (simp add: same_setup_def)

lemma place_implicit_setup: "same_setup s (place_implicit s)"
  by (simp add: same_setup_def place_implicit_def Let_def)

lemma place_explicit_setup: "place_explicit s t = Inr s1 \<Longrightarrow> same_setup s s1"
  by (auto simp add: same_setup_def place_explicit_def Let_def split: if_splits sum.splits)

lemma finish_step_setup: "same_setup s1 (state_of (finish_step s1 epoch))"
  by (auto simp add: same_setup_def finish_step_def Let_def assign_lrs_length split: sum.splits)

lemma step_setup: "same_setup s (state_of (step s a))"
proof (cases a)
  case None
  then show ?thesis
    using same_setup_trans [OF place_implicit_setup finish_step_setup] by (simp add: step_def)
next
  case (Some t)
  then show ?thesis
    using same_setup_trans [OF place_explicit_setup finish_step_setup]
    by (auto simp add: step_def split: sum.splits)
qed

lemma run_setup: "same_setup s (state_of (run s as))"
proof (induction as arbitrary: s)
  case Nil
  then show ?case by simp
next
  case (Cons a as)
  show ?case
  proof (cases "step s a")
    case (Ok s')
    with Cons [of s'] step_setup [of s a] show ?thesis
      by (auto intro: same_setup_trans)
  next
    case (Raised e s')
    with step_setup [of s a] show ?thesis by simp
  qed
qed

lemma place_implicit_group_lrs [simp]: "group_lrs (place_implicit s) = group_lrs s"
  by (simp add: place_implicit_def Let_def)

lemma place_explicit_group_lrs: "place_explicit s t = Inr s1 \<Longrightarrow> group_lrs s1 = group_lrs s"
  by (auto simp add: place_explicit_def Let_def split: if_splits sum.splits)

lemma step_Ok:
  assumes "step s a = Ok s'"
  shows "max_lr s' = base_max_lr s * gamma s powi cycle s'"
    and "last_epoch s' = (case a of None \<Rightarrow> last_epoch s + 1 | Some t \<Rightarrow> t)"
    and "\<exists>rs. get_lr s' = Inr rs \<and> group_lrs s' = assign_lrs (group_lrs s) rs"
proof -
  from assms obtain s1 e where f: "finish_step s1 e = Ok s'" and s1: "same_setup s s1"
    and g: "group_lrs s1 = group_lrs s"
    and e: "e = (case a of None \<Rightarrow> last_epoch s + 1 | Some t \<Rightarrow> t)"
    using place_implicit_setup [of s] place_explicit_setup [of s] place_explicit_group_lrs [of s]
    by (auto simp add: step_def split: option.splits sum.splits)
  from finish_step_Ok [OF f] obtain rs where rs: "get_lr s' = Inr rs"
    and s': "s' = s1\<lparr>max_lr := base_max_lr s1 * gamma s1 powi cycle s1, last_epoch := e,
                   group_lrs := assign_lrs (group_lrs s1) rs\<rparr>"
    by blast
  from s' s1 show "max_lr s' = base_max_lr s * gamma s powi cycle s'"
    by (simp add: same_setup_def)
  from s' e show "last_epoch s' = (case a of None \<Rightarrow> last_epoch s + 1 | Some t \<Rightarrow> t)"
    by simp
  from rs s' g show "\<exists>rs. get_lr s' = Inr rs \<and> group_lrs s' = assign_lrs (group_lrs s) rs"
    by simp
qed

lemma place_explicit_error: "place_explicit s t = Inl e \<Longrightarrow> e \<noteq> AssertionError"
  by (auto simp add: place_explicit_def math_log_def Let_def split: if_splits)

lemma step_error: "step s a = Raised e s' \<Longrightarrow> e \<noteq> AssertionError"
proof (cases a)
  case None
  then show "step s a = Raised e s' \<Longrightarrow> e \<noteq> AssertionError"
    by (auto simp add: step_def dest: finish_step_error)
next
  case (Some t)
  then show "step s a = Raised e s' \<Longrightarrow> e \<noteq> AssertionError"
    by (auto simp add: step_def split: sum.splits dest: finish_step_error place_explicit_error)
qed

lemma run_append:
  "run s (as @ bs) = (case run s as of Ok s' \<Rightarrow> run s' bs | Raised e s' \<Rightarrow> Raised e s')"
  by (induction as arbitrary: s) (auto split: outcome.splits)

lemma steps_0 [simp]: "steps 0 s = Ok s"
  by (simp add: steps_def)

lemma steps_Suc:
  "steps (Suc n) s = (case step s None of Ok s' \<Rightarrow> steps n s' | Raised e s' \<Rightarrow> Raised e s')"
  by (simp add: steps_def split: outcome.splits)

lemma steps_add:
  "steps (m + n) s = (case steps m s of Ok s' \<Rightarrow> steps n s' | Raised e s' \<Rightarrow> Raised e s')"
  unfolding steps_def replicate_add by (rule run_append)


lemma step_implicit_inside:
  assumes "step_in_cycle s = -1 \<or> 0 \<le> step_in_cycle s"
    and "step_in_cycle s + 1 < cur_cycle_steps s"
    and "(0 < cycle s \<and> cycle_mult s = 0) \<or> cur_cycle_steps s \<noteq> real_of_int (warmup_steps s)"
    and "gamma s \<noteq> 0 \<or> 0 \<le> cycle s"
  shows "\<exists>s'. step s None = Ok s' \<and> step_in_cycle s' = step_in_cycle s + 1 \<and>
           cycle s' = cycle s \<and> cur_cycle_steps s' = cur_cycle_steps s \<and>
           last_epoch s' = last_epoch s + 1"
proof -
  let ?s1 = "s\<lparr>step_in_cycle := step_in_cycle s + 1\<rparr>"
  let ?s2 = "?s1\<lparr>max_lr := base_max_lr ?s1 * gamma ?s1 powi cycle ?s1, last_epoch := last_epoch s + 1\<rparr>"
  have p: "place_implicit s = ?s1"
    using assms(2) by (simp add: place_implicit_def)
  have "\<exists>rs. get_lr ?s2 = Inr rs"
    by (rule get_lr_returns) (use assms in auto)
  then obtain rs where rs: "get_lr ?s2 = Inr rs" ..
  have "finish_step ?s1 (last_epoch s + 1) = Ok (?s2\<lparr>group_lrs := assign_lrs (group_lrs ?s1) rs\<rparr>)"
    using finish_step_returns [of ?s1, OF _ rs] assms(4) by simp
  with p show ?thesis by (simp add: step_def)
qed

lemma step_implicit_restart:
  assumes "cur_cycle_steps s \<le> step_in_cycle s + 1"
  shows "cycle (state_of (step s None)) = cycle s + 1"
    and "step_in_cycle (state_of (step s None)) = step_in_cycle s + 1 - cur_cycle_steps s"
    and "cur_cycle_steps (state_of (step s None)) =
           real_of_int (py_int ((cur_cycle_steps s - real_of_int (warmup_steps s)) * cycle_mult s)
                        + warmup_steps s)"
    and "gamma s \<noteq> 0 \<or> 0 \<le> cycle s + 1 \<Longrightarrow>
           max_lr (state_of (step s None)) = base_max_lr s * gamma s powi (cycle s + 1) \<and>
           last_epoch (state_of (step s None)) = last_epoch s + 1"
proof -
  let ?s1 = "s\<lparr>cycle := cycle s + 1,
       step_in_cycle := step_in_cycle s + 1 - cur_cycle_steps s,
       cur_cycle_steps := real_of_int (py_int ((cur_cycle_steps s - real_of_int (warmup_steps s)) * cycle_mult s)
                        + warmup_steps s)\<rparr>"
  have p: "place_implicit s = ?s1"
    using assms by (simp add: place_implicit_def)
  then have st: "step s None = finish_step ?s1 (last_epoch s + 1)"
    by (simp add: step_def)
  show "cycle (state_of (step s None)) = cycle s + 1"
    and "step_in_cycle (state_of (step s None)) = step_in_cycle s + 1 - cur_cycle_steps s"
    and "cur_cycle_steps (state_of (step s None)) =
           real_of_int (py_int ((cur_cycle_steps s - real_of_int (warmup_steps s)) * cycle_mult s)
                        + warmup_steps s)"
    using finish_step_position [of ?s1 "last_epoch s + 1"] by (simp_all add: st)
  show "max_lr (state_of (step s None)) = base_max_lr s * gamma s powi (cycle s + 1) \<and>
           last_epoch (state_of (step s None)) = last_epoch s + 1"
    if "gamma s \<noteq> 0 \<or> 0 \<le> cycle s + 1"
    using finish_step_max_lr [of ?s1 "last_epoch s + 1"] that by (simp add: st)
qed

section \<open>The constructor\<close>

lemma init_assert:
  "\<not> w < F \<Longrightarrow> init b g F m mx mn w gm le = Inl AssertionError"
  by (simp add: init_def)

lemma init_no_base_step:
  "w < F \<Longrightarrow>
   init False g F m mx mn w gm (-1) =
     Inr \<lparr>first_cycle_steps = F, cycle_mult = m, base_max_lr = mx, max_lr = mx, min_lr = mn,
          warmup_steps = w, gamma = gm, cur_cycle_steps = real_of_int F, cycle = 0,
          step_in_cycle = real_of_int (-1), last_epoch = -1,
          base_lrs = replicate (length g) mn, group_lrs = replicate (length g) mn\<rparr>"
  by (auto simp add: init_def build_def init_lr_def map_replicate_const)

lemma init_base_step:
  assumes "w < F" and "0 < F"
  shows "init True g F m mx mn w gm (-1) =
     Inr \<lparr>first_cycle_steps = F, cycle_mult = m, base_max_lr = mx, max_lr = mx, min_lr = mn,
          warmup_steps = w, gamma = gm, cur_cycle_steps = real_of_int F, cycle = 0,
          step_in_cycle = 0, last_epoch = 0,
          base_lrs = replicate (length g) mn, group_lrs = replicate (length g) mn\<rparr>"
proof -
  let ?s0 = "\<lparr>first_cycle_steps = F, cycle_mult = m, base_max_lr = mx, max_lr = mx, min_lr = mn,
          warmup_steps = w, gamma = gm, cur_cycle_steps = real_of_int F, cycle = 0,
          step_in_cycle = real_of_int (-1), last_epoch = -1,
          base_lrs = map initial_of g, group_lrs = map lr g\<rparr>"
  have "\<exists>s'. step ?s0 None = Ok s' \<and> step_in_cycle s' = step_in_cycle ?s0 + 1 \<and>
           cycle s' = cycle ?s0 \<and> cur_cycle_steps s' = cur_cycle_steps ?s0 \<and>
           last_epoch s' = last_epoch ?s0 + 1"
    by (rule step_implicit_inside) (use assms in auto)
  then obtain s' where st: "step ?s0 None = Ok s'" and f: "step_in_cycle s' = 0" "cycle s' = 0"
    "cur_cycle_steps s' = real_of_int F" "last_epoch s' = 0"
    by auto
  have su: "same_setup ?s0 s'"
    using step_setup [of ?s0 None] st by simp
  have mx: "max_lr s' = mx"
    using step_Ok(1) [OF st] f by simp
  have "init_lr s' = \<lparr>first_cycle_steps = F, cycle_mult = m, base_max_lr = mx, max_lr = mx, min_lr = mn,
          warmup_steps = w, gamma = gm, cur_cycle_steps = real_of_int F, cycle = 0,
          step_in_cycle = 0, last_epoch = 0,
          base_lrs = replicate (length g) mn, group_lrs = replicate (length g) mn\<rparr>"
    using su f mx by (cases s') (simp add: init_lr_def same_setup_def map_replicate_const)
  with st assms show ?thesis
    by (simp add: init_def build_def)
qed

lemma init_error:
  "init b g F m mx mn w gm le = Inl AssertionError \<Longrightarrow> \<not> w < F"
  by (auto simp add: init_def build_def Let_def split: if_splits outcome.splits dest: step_error)

section \<open>Placement\<close>

lemma py_int_nonneg: "0 \<le> x \<Longrightarrow> py_int x = \<lfloor>x\<rfloor>"
  by (simp add: py_int_def)

lemma py_int_of_int [simp]: "py_int (real_of_int k) = k"
  by (simp add: py_int_def)


lemma place_implicit_inside:
  "step_in_cycle s + 1 < cur_cycle_steps s \<Longrightarrow>
   place_implicit s = s\<lparr>step_in_cycle := step_in_cycle s + 1\<rparr>"
  by (simp add: place_implicit_def)

lemma place_implicit_restart:
  "cur_cycle_steps s \<le> step_in_cycle s + 1 \<Longrightarrow>
   place_implicit s =
     s\<lparr>cycle := cycle s + 1,
       step_in_cycle := step_in_cycle s + 1 - cur_cycle_steps s,
       cur_cycle_steps :=
         real_of_int (py_int ((cur_cycle_steps s - real_of_int (warmup_steps s)) * cycle_mult s)
                      + warmup_steps s)\<rparr>"
  by (simp add: place_implicit_def)

lemma place_explicit_first_cycle:
  "t < first_cycle_steps s \<Longrightarrow>
   place_explicit s t =
     Inr (s\<lparr>cur_cycle_steps := real_of_int (first_cycle_steps s), step_in_cycle := real_of_int t\<rparr>)"
  by (simp add: place_explicit_def)

lemma place_explicit_modulo:
  "first_cycle_steps s \<le> t \<Longrightarrow> cycle_mult s = 1 \<Longrightarrow> first_cycle_steps s \<noteq> 0 \<Longrightarrow>
   place_explicit s t =
     Inr (s\<lparr>step_in_cycle := real_of_int (t mod first_cycle_steps s),
            cycle := t div first_cycle_steps s\<rparr>)"
  by (simp add: place_explicit_def)


lemma place_explicit_zero_mult:
  "cycle_mult s = 0 \<Longrightarrow> place_explicit s t = Inr s1 \<Longrightarrow>
   t < first_cycle_steps s \<and>
   s1 = s\<lparr>cur_cycle_steps := real_of_int (first_cycle_steps s), step_in_cycle := real_of_int t\<rparr>"
  by (auto simp add: place_explicit_def math_log_def Let_def split: if_splits)

lemma step_Ok_place:
  assumes "step s a = Ok s'"
  shows "\<exists>s1. (case a of None \<Rightarrow> s1 = place_implicit s | Some t \<Rightarrow> place_explicit s t = Inr s1) \<and>
           cycle s' = cycle s1 \<and> step_in_cycle s' = step_in_cycle s1 \<and>
           cur_cycle_steps s' = cur_cycle_steps s1"
proof (cases a)
  case None
  with assms have "finish_step (place_implicit s) (last_epoch s + 1) = Ok s'"
    by (simp add: step_def)
  with finish_step_position [of "place_implicit s" "last_epoch s + 1"] None show ?thesis
    by simp
next
  case (Some t)
  with assms obtain s1 where p: "place_explicit s t = Inr s1" and f: "finish_step s1 t = Ok s'"
    by (auto simp add: step_def split: sum.splits)
  with finish_step_position [of s1 t] Some show ?thesis
    by simp
qed

lemma step_implicit_Ints:
  assumes "step s None = Ok s'" and "cur_cycle_steps s \<in> \<int>"
  shows "cur_cycle_steps s' \<in> \<int>"
proof -
  from step_Ok_place [OF assms(1)]
  have "cur_cycle_steps s' = cur_cycle_steps (place_implicit s)" by simp
  with assms(2) show ?thesis
    by (simp add: place_implicit_def Let_def)
qed

lemma floor_log_quotient:
  fixes b x :: real
  assumes "1 < b" and "b powi k \<le> x" and "x < b powi (k + 1)"
  shows "\<lfloor>ln x / ln b\<rfloor> = k"
proof -
  have b: "0 < b" using assms(1) by simp
  have "0 < b powi k" using b by simp
  with assms(2) have x: "0 < x" by linarith
  have p: "b powr real_of_int j = b powi j" for j
    using b by (simp add: powr_real_of_int')
  have "real_of_int k + 1 = real_of_int (k + 1)" by simp
  then have "b powr (real_of_int k + 1) = b powi (k + 1)"
    using p [of "k + 1"] by (simp only:)
  with assms p [of k] have "b powr real_of_int k \<le> x" "x < b powr (real_of_int k + 1)"
    by simp_all
  then have "\<lfloor>log b x\<rfloor> = k"
    using floor_log_eq_powr_iff [OF x assms(1)] by simp
  then show ?thesis by (simp add: log_def)
qed

lemma py_int_log:
  assumes "1 < b" and "b powi k \<le> x" and "x < b powi (k + 1)" and "0 \<le> k"
  shows "py_int (ln x / ln b) = k"
proof -
  have "1 \<le> b powi k" using assms(1,4) by (simp add: one_le_power_int)
  with assms(2) have "1 \<le> x" by linarith
  then have "0 \<le> ln x / ln b" using assms(1) by simp
  then show ?thesis
    using floor_log_quotient [OF assms(1-3)] by (simp add: py_int_def)
qed

section \<open>Runs\<close>

lemma trace_forward:
  "forward_args (last_epoch s) as \<Longrightarrow>
   sorted (map last_epoch (trace s as)) \<and> (\<forall>u \<in> set (trace s as). last_epoch s \<le> last_epoch u)"
proof (induction as arbitrary: s)
  case Nil
  then show ?case by simp
next
  case (Cons a as)
  show ?case
  proof (cases "step s a")
    case (Raised e s')
    then show ?thesis by simp
  next
    case (Ok s')
    have le: "last_epoch s' = (case a of None \<Rightarrow> last_epoch s + 1 | Some t \<Rightarrow> t)"
      by (rule step_Ok(2) [OF Ok])
    have "forward_args (last_epoch s') as \<and> last_epoch s \<le> last_epoch s'"
      using Cons.prems le by (cases a) simp_all
    with Cons.IH [of s'] Ok show ?thesis by fastforce
  qed
qed

text \<open>The equations that evaluate a call on a given object.\<close>

lemmas step_eval = step_def place_implicit_def place_explicit_def finish_step_def py_pow_def
  get_lr_def warmup_lr_def cosine_lr_def py_div_def math_log_def Let_def

section \<open>A zero multiplier\<close>

lemma step_position:
  "\<exists>s1. (case a of None \<Rightarrow> s1 = place_implicit s
              | Some t \<Rightarrow> place_explicit s t = Inr s1 \<or> (s1 = s \<and> (\<exists>e. place_explicit s t = Inl e))) \<and>
        cycle (state_of (step s a)) = cycle s1 \<and>
        step_in_cycle (state_of (step s a)) = step_in_cycle s1 \<and>
        cur_cycle_steps (state_of (step s a)) = cur_cycle_steps s1"
proof (cases a)
  case None
  with finish_step_position [of "place_implicit s" "last_epoch s + 1"] show ?thesis
    by (simp add: step_def)
next
  case (Some t)
  show ?thesis
  proof (cases "place_explicit s t")
    case (Inl e)
    with Some show ?thesis by (simp add: step_def)
  next
    case (Inr s1)
    with Some finish_step_position [of s1 t] show ?thesis by (simp add: step_def)
  qed
qed

lemma step_zero_mult:
  assumes "cycle_mult s = 0" and "0 \<le> cycle s"
    and "cycle s = 0 \<longrightarrow> cur_cycle_steps s = real_of_int (first_cycle_steps s)"
  shows "0 \<le> cycle (state_of (step s a)) \<and>
         (cycle (state_of (step s a)) = 0 \<longrightarrow>
            cur_cycle_steps (state_of (step s a)) = real_of_int (first_cycle_steps s))"
proof -
  from step_position [of s a] obtain s1
    where p: "case a of None \<Rightarrow> s1 = place_implicit s
              | Some t \<Rightarrow> place_explicit s t = Inr s1 \<or> (s1 = s \<and> (\<exists>e. place_explicit s t = Inl e))"
      and c: "cycle (state_of (step s a)) = cycle s1"
             "cur_cycle_steps (state_of (step s a)) = cur_cycle_steps s1"
    by blast
  show ?thesis
  proof (cases a)
    case None
    with p have "s1 = place_implicit s" by simp
    with c assms(2,3) show ?thesis
      by (auto simp add: place_implicit_def Let_def split: if_splits)
  next
    case (Some t)
    with p have "place_explicit s t = Inr s1 \<or> s1 = s" by auto
    then show ?thesis
    proof
      assume "place_explicit s t = Inr s1"
      from place_explicit_zero_mult [OF assms(1) this] c assms(2,3) show ?thesis
        by simp
    next
      assume "s1 = s"
      with c assms(2,3) show ?thesis by simp
    qed
  qed
qed

section \<open>A cycle length that is not an integer\<close>

lemma nine_halves_not_int: "(9/2::real) \<notin> \<int>"
proof
  assume "(9/2::real) \<in> \<int>"
  then obtain k :: int where "(9/2::real) = of_int k" by (auto elim: Ints_cases)
  then have "real_of_int 9 = real_of_int (2 * k)" by simp
  then have "(9::int) = 2 * k" by (simp only: of_int_eq_iff)
  then show False by presburger
qed

section \<open>A multiplier of at least one\<close>




section \<open>The fields after construction and after a call\<close>

lemma step_fields:
  assumes "step s a = Ok s'"
  shows "first_cycle_steps s' = first_cycle_steps s" and "cycle_mult s' = cycle_mult s"
    and "base_max_lr s' = base_max_lr s" and "min_lr s' = min_lr s"
    and "warmup_steps s' = warmup_steps s" and "gamma s' = gamma s"
    and "base_lrs s' = base_lrs s" and "length (group_lrs s') = length (group_lrs s)"
  using step_setup [of s a] assms by (simp_all add: same_setup_def)

lemma init_fields:
  assumes "w < F" and "0 < F" and "init b g F m mx mn w gm (-1) = Inr s0"
  shows "first_cycle_steps s0 = F" and "cycle_mult s0 = m" and "base_max_lr s0 = mx"
    and "max_lr s0 = mx" and "min_lr s0 = mn" and "warmup_steps s0 = w" and "gamma s0 = gm"
    and "cur_cycle_steps s0 = real_of_int F" and "cycle s0 = 0"
    and "step_in_cycle s0 = (if b then 0 else -1)" and "last_epoch s0 = (if b then 0 else -1)"
    and "base_lrs s0 = replicate (length g) mn" and "group_lrs s0 = replicate (length g) mn"
proof -
  have "s0 = \<lparr>first_cycle_steps = F, cycle_mult = m, base_max_lr = mx, max_lr = mx, min_lr = mn,
          warmup_steps = w, gamma = gm, cur_cycle_steps = real_of_int F, cycle = 0,
          step_in_cycle = (if b then 0 else -1), last_epoch = (if b then 0 else -1),
          base_lrs = replicate (length g) mn, group_lrs = replicate (length g) mn\<rparr>"
  proof (cases b)
    case True
    with assms(3) init_base_step [OF assms(1,2), of g m mx mn gm] show ?thesis by simp
  next
    case False
    with assms(3) init_no_base_step [OF assms(1), of g m mx mn gm] show ?thesis by simp
  qed
  then show "first_cycle_steps s0 = F" and "cycle_mult s0 = m" and "base_max_lr s0 = mx"
    and "max_lr s0 = mx" and "min_lr s0 = mn" and "warmup_steps s0 = w" and "gamma s0 = gm"
    and "cur_cycle_steps s0 = real_of_int F" and "cycle s0 = 0"
    and "step_in_cycle s0 = (if b then 0 else -1)" and "last_epoch s0 = (if b then 0 else -1)"
    and "base_lrs s0 = replicate (length g) mn" and "group_lrs s0 = replicate (length g) mn"
    by simp_all
qed

section \<open>A full cycle of calls without argument\<close>

lemma steps_inside:
  assumes "step_in_cycle s = -1 \<or> 0 \<le> step_in_cycle s"
    and "step_in_cycle s + real k < cur_cycle_steps s"
    and "cur_cycle_steps s \<noteq> real_of_int (warmup_steps s)"
    and "gamma s \<noteq> 0 \<or> 0 \<le> cycle s"
  shows "\<exists>s'. steps k s = Ok s' \<and> step_in_cycle s' = step_in_cycle s + real k \<and>
           cycle s' = cycle s \<and> cur_cycle_steps s' = cur_cycle_steps s \<and>
           last_epoch s' = last_epoch s + int k \<and> same_setup s s'"
  using assms
proof (induction k arbitrary: s)
  case 0
  then show ?case by simp
next
  case (Suc k)
  have "\<exists>s1. step s None = Ok s1 \<and> step_in_cycle s1 = step_in_cycle s + 1 \<and>
           cycle s1 = cycle s \<and> cur_cycle_steps s1 = cur_cycle_steps s \<and>
           last_epoch s1 = last_epoch s + 1"
    by (rule step_implicit_inside) (use Suc.prems in auto)
  then obtain s1 where st: "step s None = Ok s1" and f: "step_in_cycle s1 = step_in_cycle s + 1"
    "cycle s1 = cycle s" "cur_cycle_steps s1 = cur_cycle_steps s" "last_epoch s1 = last_epoch s + 1"
    by blast
  have su: "same_setup s s1"
    using step_setup [of s None] st by simp
  then have g: "warmup_steps s1 = warmup_steps s" "gamma s1 = gamma s"
    by (simp_all add: same_setup_def)
  have "\<exists>s'. steps k s1 = Ok s' \<and> step_in_cycle s' = step_in_cycle s1 + real k \<and>
           cycle s' = cycle s1 \<and> cur_cycle_steps s' = cur_cycle_steps s1 \<and>
           last_epoch s' = last_epoch s1 + int k \<and> same_setup s1 s'"
    by (rule Suc.IH) (use Suc.prems f g in auto)
  then obtain s' where r: "steps k s1 = Ok s'" and h: "step_in_cycle s' = step_in_cycle s1 + real k"
    "cycle s' = cycle s1" "cur_cycle_steps s' = cur_cycle_steps s1"
    "last_epoch s' = last_epoch s1 + int k" "same_setup s1 s'"
    by blast
  have "steps (Suc k) s = Ok s'"
    using st r by (simp add: steps_Suc)
  with f h same_setup_trans [OF su h(5)] show ?case by simp
qed

lemma finish_step_is_ok:
  assumes "gamma s1 \<noteq> 0 \<or> 0 \<le> cycle s1"
  shows "is_ok (finish_step s1 epoch) \<longleftrightarrow> (\<exists>rs. get_lr (state_of (finish_step s1 epoch)) = Inr rs)"
  using assms by (auto simp add: finish_step_def py_pow_def Let_def split: sum.splits)

lemma cycle_completion:
  assumes sic: "step_in_cycle s = real_of_int p" and cur: "cur_cycle_steps s = real_of_int L"
    and p: "-1 \<le> p" "p < L" and w: "warmup_steps s \<noteq> L"
    and c: "0 \<le> cycle s"
  shows "step_in_cycle (state_of (steps (nat (L - p)) s)) = 0"
    and "cycle (state_of (steps (nat (L - p)) s)) = cycle s + 1"
    and "cur_cycle_steps (state_of (steps (nat (L - p)) s)) =
           real_of_int (py_int (real_of_int (L - warmup_steps s) * cycle_mult s) + warmup_steps s)"
    and "max_lr (state_of (steps (nat (L - p)) s)) = base_max_lr s * gamma s powi (cycle s + 1)"
    and "last_epoch (state_of (steps (nat (L - p)) s)) = last_epoch s + (L - p)"
    and "same_setup s (state_of (steps (nat (L - p)) s))"
    and "is_ok (steps (nat (L - p)) s) \<longleftrightarrow>
           (\<exists>rs. get_lr (state_of (steps (nat (L - p)) s)) = Inr rs)"
proof -
  let ?k = "nat (L - p - 1)"
  have k: "nat (L - p) = ?k + 1" "real ?k = real_of_int (L - p - 1)" "int ?k = L - p - 1"
    using p by simp_all
  have "\<exists>s'. steps ?k s = Ok s' \<and> step_in_cycle s' = step_in_cycle s + real ?k \<and>
           cycle s' = cycle s \<and> cur_cycle_steps s' = cur_cycle_steps s \<and>
           last_epoch s' = last_epoch s + int ?k \<and> same_setup s s'"
  proof (rule steps_inside)
    show "step_in_cycle s = -1 \<or> 0 \<le> step_in_cycle s"
      using sic p by (cases "p = -1") simp_all
    show "step_in_cycle s + real ?k < cur_cycle_steps s"
      using sic cur k(2) by simp
    show "cur_cycle_steps s \<noteq> real_of_int (warmup_steps s)"
      using cur w by simp
    show "gamma s \<noteq> 0 \<or> 0 \<le> cycle s"
      using c by simp
  qed
  then obtain s' where r: "steps ?k s = Ok s'" and f: "step_in_cycle s' = real_of_int (L - 1)"
    "cycle s' = cycle s" "cur_cycle_steps s' = real_of_int L"
    "last_epoch s' = last_epoch s + (L - p - 1)" and su: "same_setup s s'"
    using sic cur k by auto
  have e: "steps (nat (L - p)) s = step s' None"
    using r by (simp only: k(1) steps_add) (simp add: steps_Suc split: outcome.splits)
  have su': "same_setup s (state_of (step s' None))"
    using same_setup_trans [OF su step_setup [of s' None]] .
  have g: "warmup_steps s' = warmup_steps s" "cycle_mult s' = cycle_mult s"
    "base_max_lr s' = base_max_lr s" "gamma s' = gamma s"
    using su by (simp_all add: same_setup_def)
  have le: "cur_cycle_steps s' \<le> step_in_cycle s' + 1"
    using f by simp
  note rs = step_implicit_restart [OF le]
  show "step_in_cycle (state_of (steps (nat (L - p)) s)) = 0"
    using rs(2) f by (simp add: e)
  show "cycle (state_of (steps (nat (L - p)) s)) = cycle s + 1"
    using rs(1) f by (simp add: e)
  show "cur_cycle_steps (state_of (steps (nat (L - p)) s)) =
           real_of_int (py_int (real_of_int (L - warmup_steps s) * cycle_mult s) + warmup_steps s)"
    using rs(3) f g by (simp add: e)
  have "gamma s' \<noteq> 0 \<or> 0 \<le> cycle s' + 1"
    using c f by simp
  from rs(4) [OF this]
  show "max_lr (state_of (steps (nat (L - p)) s)) = base_max_lr s * gamma s powi (cycle s + 1)"
    and "last_epoch (state_of (steps (nat (L - p)) s)) = last_epoch s + (L - p)"
    using f g by (simp_all add: e)
  show "same_setup s (state_of (steps (nat (L - p)) s))"
    using su' by (simp add: e)
  have "place_implicit s' = s'\<lparr>cycle := cycle s' + 1,
       step_in_cycle := step_in_cycle s' + 1 - cur_cycle_steps s',
       cur_cycle_steps :=
         real_of_int (py_int ((cur_cycle_steps s' - real_of_int (warmup_steps s')) * cycle_mult s')
                      + warmup_steps s')\<rparr>"
    by (rule place_implicit_restart [OF le])
  then have "gamma (place_implicit s') \<noteq> 0 \<or> 0 \<le> cycle (place_implicit s')"
    using c f by simp
  from finish_step_is_ok [OF this, of "last_epoch s' + 1"]
  show "is_ok (steps (nat (L - p)) s) \<longleftrightarrow>
           (\<exists>rs. get_lr (state_of (steps (nat (L - p)) s)) = Inr rs)"
    by (simp add: e step_def)
qed

lemma full_cycle_unstarted:
  assumes "w < F" and "0 < F" and "init False g F m mx mn w gm (-1) = Inr s0"
  shows "step_in_cycle s0 = -1"
    and "step_in_cycle (state_of (steps (nat F) s0)) = real_of_int (F - 1)"
    and "cycle (state_of (steps (nat F) s0)) = 0"
    and "step_in_cycle (state_of (steps (nat (F + 1)) s0)) = 0"
    and "cycle (state_of (steps (nat (F + 1)) s0)) = 1"
proof -
  note s0 = init_fields [OF assms]
  show "step_in_cycle s0 = -1" using s0(10) by simp
  have "\<exists>s'. steps (nat F) s0 = Ok s' \<and> step_in_cycle s' = step_in_cycle s0 + real (nat F) \<and>
           cycle s' = cycle s0 \<and> cur_cycle_steps s' = cur_cycle_steps s0 \<and>
           last_epoch s' = last_epoch s0 + int (nat F) \<and> same_setup s0 s'"
    by (rule steps_inside) (use s0 assms(1,2) in auto)
  then show "step_in_cycle (state_of (steps (nat F) s0)) = real_of_int (F - 1)"
    and "cycle (state_of (steps (nat F) s0)) = 0"
    using s0(9,10) assms(2) by auto
  have sic: "step_in_cycle s0 = real_of_int (-1)" using s0(10) by simp
  have wF: "warmup_steps s0 \<noteq> F" using s0(6) assms(1) by simp
  have c0: "0 \<le> cycle s0" using s0(9) by simp
  have "F - (-1) = F + 1" by simp
  with cycle_completion(1,2) [OF sic s0(8) _ _ wF c0] assms(2) s0(9)
  show "step_in_cycle (state_of (steps (nat (F + 1)) s0)) = 0"
    and "cycle (state_of (steps (nat (F + 1)) s0)) = 1"
    by simp_all
qed

section \<open>Evaluation of runs\<close>

lemma map_err_replicate_value:
  "map_err f (replicate n x) =
     (if n \<noteq> 0 \<and> isl (f x) then Inl (projl (f x)) else Inr (replicate n (projr (f x))))"
  by (cases "f x") (simp_all add: map_err_replicate)

lemma assign_lrs_replicate [simp]: "assign_lrs (replicate n x) (replicate n y) = replicate n y"
  by (simp add: assign_lrs_same_length)

lemmas run_eval = advance_to_def steps_def eval_nat_numeral step_eval map_err_replicate_value py_int_def

text \<open>The logarithms of the two explicit placements evaluated below.\<close>

lemma log_two_seven_halves: "py_int (ln (7/2) / ln 2) = 1"
  by (rule py_int_log) simp_all

lemma log_three_halves: "py_int (ln (19/6) / ln (3/2)) = 2"
  by (rule py_int_log) (simp_all add: power_int_def power2_eq_square power3_eq_cube)

lemma py_int_numeral [simp]: "py_int (numeral k) = numeral k"
  by (simp add: py_int_def)

lemma py_int_fifteen_halves: "py_int (15/2) = 7"
  by (simp add: py_int_def)

section \<open>A multiplier of one\<close>

lemma succ_div_mod:
  fixes e F :: int
  assumes "0 < F"
  shows "(e + 1) mod F = (if e mod F + 1 < F then e mod F + 1 else 0)"
    and "(e + 1) div F = (if e mod F + 1 < F then e div F else e div F + 1)"
proof -
  have r: "0 \<le> e mod F" "e mod F < F"
    using assms by simp_all
  have d: "e = F * (e div F) + e mod F"
    by simp
  show "(e + 1) mod F = (if e mod F + 1 < F then e mod F + 1 else 0)"
  proof (cases "e mod F + 1 < F")
    case True
    have "e + 1 = F * (e div F) + (e mod F + 1)" using d by linarith
    then have "(e + 1) mod F = e mod F + 1"
      by (rule int_mod_pos_eq) (use r True in simp_all)
    with True show ?thesis by simp
  next
    case False
    with r have "e mod F = F - 1" by simp
    with d have "e + 1 = F * (e div F + 1) + 0" by (simp add: algebra_simps)
    then have "(e + 1) mod F = 0"
      by (rule int_mod_pos_eq) (use assms in simp_all)
    with False show ?thesis by simp
  qed
  show "(e + 1) div F = (if e mod F + 1 < F then e div F else e div F + 1)"
  proof (cases "e mod F + 1 < F")
    case True
    have "e + 1 = F * (e div F) + (e mod F + 1)" using d by linarith
    then have "(e + 1) div F = e div F"
      by (rule int_div_pos_eq) (use r True in simp_all)
    with True show ?thesis by simp
  next
    case False
    with r have "e mod F = F - 1" by simp
    with d have "e + 1 = F * (e div F + 1) + 0" by (simp add: algebra_simps)
    then have "(e + 1) div F = e div F + 1"
      by (rule int_div_pos_eq) (use assms in simp_all)
    with False show ?thesis by simp
  qed
qed

lemma get_lr_cong:
  assumes "cycle s = cycle s'" and "cycle_mult s = cycle_mult s'"
    and "step_in_cycle s = step_in_cycle s'" and "warmup_steps s = warmup_steps s'"
    and "cur_cycle_steps s = cur_cycle_steps s'" and "max_lr s = max_lr s'"
    and "base_lrs s = base_lrs s'"
  shows "get_lr s = get_lr s'"
proof -
  have "warmup_lr s = warmup_lr s'"
    by (rule ext) (simp add: warmup_lr_def assms split: sum.splits)
  moreover have "cosine_lr s = cosine_lr s'"
    by (rule ext) (simp add: cosine_lr_def assms split: sum.splits)
  ultimately show ?thesis
    by (simp add: get_lr_def assms)
qed

lemma step_unit_mult:
  assumes m: "cycle_mult s = 1" and F: "0 < first_cycle_steps s"
    and wF: "warmup_steps s < first_cycle_steps s"
    and cur: "cur_cycle_steps s = real_of_int (first_cycle_steps s)"
    and le: "-1 \<le> last_epoch s"
    and sic: "step_in_cycle s = (if last_epoch s = -1 then -1
                                 else real_of_int (last_epoch s mod first_cycle_steps s))"
    and cyc: "cycle s = (if last_epoch s = -1 then 0 else last_epoch s div first_cycle_steps s)"
  shows "\<exists>s'. step s None = Ok s' \<and> last_epoch s' = last_epoch s + 1 \<and>
           cur_cycle_steps s' = real_of_int (first_cycle_steps s) \<and>
           step_in_cycle s' = real_of_int (last_epoch s' mod first_cycle_steps s) \<and>
           cycle s' = last_epoch s' div first_cycle_steps s"
proof -
  let ?F = "first_cycle_steps s"
  let ?e = "last_epoch s"
  have c0: "0 \<le> cycle s"
    using cyc le F by (simp add: pos_imp_zdiv_nonneg_iff)
  have w: "cur_cycle_steps s \<noteq> real_of_int (warmup_steps s)"
    using cur wF by simp
  have g: "gamma s \<noteq> 0 \<or> 0 \<le> cycle s"
    using c0 by simp
  have r: "0 \<le> ?e mod ?F" "?e mod ?F < ?F"
    using F by simp_all
  have started: "step_in_cycle s = -1 \<or> 0 \<le> step_in_cycle s"
    using sic r by simp
  show ?thesis
  proof (cases "step_in_cycle s + 1 < cur_cycle_steps s")
    case True
    have "\<exists>s'. step s None = Ok s' \<and> step_in_cycle s' = step_in_cycle s + 1 \<and>
           cycle s' = cycle s \<and> cur_cycle_steps s' = cur_cycle_steps s \<and>
           last_epoch s' = last_epoch s + 1"
      using started True _ g by (rule step_implicit_inside) (simp add: w)
    then obtain s' where s': "step s None = Ok s'" "step_in_cycle s' = step_in_cycle s + 1"
      "cycle s' = cycle s" "cur_cycle_steps s' = cur_cycle_steps s" "last_epoch s' = ?e + 1"
      by blast
    have pos: "step_in_cycle s' = real_of_int ((?e + 1) mod ?F) \<and> cycle s' = (?e + 1) div ?F"
    proof (cases "?e = -1")
      case neg: True
      then show ?thesis using s'(2,3) sic cyc F by simp
    next
      case False
      with True sic cur have "?e mod ?F + 1 < ?F" by simp
      then show ?thesis
        using succ_div_mod [OF F, of ?e] s'(2,3) sic cyc False by simp
    qed
    show ?thesis
      using s'(1,4,5) pos cur by simp
  next
    case wrap: False
    have ne: "?e \<noteq> -1"
      using wrap sic cur F by auto
    then have last: "\<not> ?e mod ?F + 1 < ?F"
      using wrap sic cur by simp
    with r have eq: "?e mod ?F = ?F - 1" by simp
    let ?z = "state_of (step s None)"
    have lt: "cur_cycle_steps s \<le> step_in_cycle s + 1"
      using wrap by simp
    note rs = step_implicit_restart [OF lt]
    have z1: "step_in_cycle ?z = 0"
      using rs(2) ne sic cur eq by simp
    have z2: "cycle ?z = ?e div ?F + 1"
      using rs(1) ne cyc by simp
    have "py_int (real_of_int ?F - real_of_int (warmup_steps s)) = ?F - warmup_steps s"
      using py_int_of_int [of "?F - warmup_steps s"] by simp
    then have z3: "cur_cycle_steps ?z = real_of_int ?F"
      using rs(3) cur m by simp
    have "gamma s \<noteq> 0 \<or> 0 \<le> cycle s + 1"
      using c0 by simp
    from rs(4) [OF this] have z4: "last_epoch ?z = ?e + 1" by simp
    have su: "warmup_steps ?z = warmup_steps s"
      using step_setup [of s None] by (simp add: same_setup_def)
    have "\<exists>rs. get_lr ?z = Inr rs"
    proof (rule get_lr_returns)
      show "step_in_cycle ?z = -1 \<or> 0 \<le> step_in_cycle ?z" using z1 by simp
      show "(0 < cycle ?z \<and> cycle_mult ?z = 0) \<or> cur_cycle_steps ?z \<noteq> real_of_int (warmup_steps ?z)"
        using z3 su wF by simp
    qed
    moreover have "place_implicit s = s\<lparr>cycle := cycle s + 1,
           step_in_cycle := step_in_cycle s + 1 - cur_cycle_steps s,
           cur_cycle_steps :=
             real_of_int (py_int ((cur_cycle_steps s - real_of_int (warmup_steps s)) * cycle_mult s)
                      + warmup_steps s)\<rparr>"
      by (rule place_implicit_restart [OF lt])
    then have "gamma (place_implicit s) \<noteq> 0 \<or> 0 \<le> cycle (place_implicit s)"
      using c0 by simp
    from finish_step_is_ok [OF this, of "?e + 1"]
    have "is_ok (step s None) \<longleftrightarrow> (\<exists>rs. get_lr ?z = Inr rs)"
      by (simp add: step_def)
    ultimately have "is_ok (step s None)" by simp
    then obtain s' where s': "step s None = Ok s'"
      by (cases "step s None") simp_all
    have "(?e + 1) mod ?F = 0 \<and> (?e + 1) div ?F = ?e div ?F + 1"
      using succ_div_mod [OF F, of ?e] last by simp
    then show ?thesis
      using s' z1 z2 z3 z4 by simp
  qed
qed

lemma step_Ok_rates:
  assumes "step s a = Ok s'" and "length (group_lrs s) = length (base_lrs s)"
  shows "get_lr s' = Inr (group_lrs s')"
proof -
  from step_Ok(3) [OF assms(1)] obtain rs
    where rs: "get_lr s' = Inr rs" "group_lrs s' = assign_lrs (group_lrs s) rs"
    by blast
  have "length rs = length (base_lrs s')" by (rule get_lr_length [OF rs(1)])
  also have "\<dots> = length (group_lrs s)"
    using step_fields(7) [OF assms(1)] assms(2) by simp
  finally show ?thesis
    using rs by (simp add: assign_lrs_same_length)
qed

lemma step_on_unit_grid:
  assumes "on_unit_grid s"
  shows "\<exists>s'. step s None = Ok s' \<and> on_unit_grid s' \<and> last_epoch s' = last_epoch s + 1 \<and>
           same_setup s s'"
proof -
  from assms have a: "cycle_mult s = 1" "0 < first_cycle_steps s"
    "warmup_steps s < first_cycle_steps s"
    "cur_cycle_steps s = real_of_int (first_cycle_steps s)" "-1 \<le> last_epoch s"
    "step_in_cycle s = (if last_epoch s = -1 then -1
                        else real_of_int (last_epoch s mod first_cycle_steps s))"
    "cycle s = (if last_epoch s = -1 then 0 else last_epoch s div first_cycle_steps s)"
    and len: "length (group_lrs s) = length (base_lrs s)"
    by (simp_all add: on_unit_grid_def)
  from step_unit_mult [OF a] obtain s1
    where s1: "step s None = Ok s1" and e: "last_epoch s1 = last_epoch s + 1"
      and p: "cur_cycle_steps s1 = real_of_int (first_cycle_steps s)"
      "step_in_cycle s1 = real_of_int (last_epoch s1 mod first_cycle_steps s)"
      "cycle s1 = last_epoch s1 div first_cycle_steps s"
    by (elim exE conjE)
  note f = step_fields [OF s1]
  have su: "same_setup s s1"
    using step_setup [of s None] s1 by simp
  have ne: "last_epoch s1 \<noteq> -1" "-1 \<le> last_epoch s1"
    using e a(5) by simp_all
  have "on_unit_grid s1"
    unfolding on_unit_grid_def using f a(1-3) p ne len by simp
  with s1 e su show ?thesis by blast
qed

lemma steps_on_unit_grid:
  assumes "on_unit_grid s"
  shows "\<exists>s'. steps k s = Ok s' \<and> on_unit_grid s' \<and> last_epoch s' = last_epoch s + int k \<and>
           same_setup s s' \<and>
           (0 < k \<longrightarrow> max_lr s' = base_max_lr s * gamma s powi cycle s' \<and>
                       get_lr s' = Inr (group_lrs s'))"
  using assms
proof (induction k arbitrary: s)
  case 0
  then show ?case by simp
next
  case (Suc k)
  from step_on_unit_grid [OF Suc.prems] obtain s1
    where s1: "step s None = Ok s1" and g1: "on_unit_grid s1"
      and e1: "last_epoch s1 = last_epoch s + 1" and su: "same_setup s s1"
    by (elim exE conjE)
  from Suc.prems have len: "length (group_lrs s) = length (base_lrs s)"
    by (simp add: on_unit_grid_def)
  have r1: "max_lr s1 = base_max_lr s * gamma s powi cycle s1" "get_lr s1 = Inr (group_lrs s1)"
    using step_Ok(1) [OF s1] step_Ok_rates [OF s1 len] by simp_all
  from Suc.IH [OF g1] obtain s'
    where s': "steps k s1 = Ok s'" and g': "on_unit_grid s'"
      and e': "last_epoch s' = last_epoch s1 + int k" and su': "same_setup s1 s'"
      and r': "0 < k \<longrightarrow> max_lr s' = base_max_lr s1 * gamma s1 powi cycle s' \<and>
                       get_lr s' = Inr (group_lrs s')"
    by (elim exE conjE)
  have st: "steps (Suc k) s = Ok s'"
    using s1 s' by (simp add: steps_Suc)
  have rates: "max_lr s' = base_max_lr s * gamma s powi cycle s' \<and> get_lr s' = Inr (group_lrs s')"
  proof (cases "k = 0")
    case True
    with s' have "s' = s1" by simp
    with r1 show ?thesis by simp
  next
    case False
    with r' step_fields(3,6) [OF s1] show ?thesis by simp
  qed
  have "last_epoch s' = last_epoch s + int (Suc k)"
    using e' e1 by simp
  with st g' same_setup_trans [OF su su'] rates show ?case by blast
qed

lemma explicit_implicit_agree_unit:
  assumes "w < F" and "0 < F" and "0 \<le> t" and "init b g F 1 mx mn w gm (-1) = Inr s0"
  shows "\<exists>se si. step s0 (Some t) = Ok se \<and> advance_to t s0 = Ok si \<and>
           last_epoch se = t \<and> last_epoch si = t \<and>
           cycle se = cycle si \<and> step_in_cycle se = step_in_cycle si \<and>
           cur_cycle_steps se = cur_cycle_steps si \<and> max_lr se = max_lr si \<and>
           get_lr se = get_lr si \<and> get_lr se = Inr (group_lrs se) \<and>
           (last_epoch s0 < t \<longrightarrow> group_lrs se = group_lrs si)"
proof -
  note s0 = init_fields [OF assms(1,2,4)]
  have len: "length (group_lrs s0) = length (base_lrs s0)"
    using s0(12,13) by simp
  have le0: "-1 \<le> last_epoch s0" "last_epoch s0 \<le> 0"
    using s0(11) by simp_all
  \<comment> \<open>the explicit placement\<close>
  let ?p = "s0\<lparr>step_in_cycle := real_of_int (t mod F), cycle := t div F,
                cur_cycle_steps := real_of_int F\<rparr>"
  have pl: "\<exists>s1. place_explicit s0 t = Inr s1 \<and> step_in_cycle s1 = real_of_int (t mod F) \<and>
              cycle s1 = t div F \<and> cur_cycle_steps s1 = real_of_int F"
  proof (cases "t < F")
    case True
    then show ?thesis
      using assms(3) s0(1,9) by (simp add: place_explicit_first_cycle)
  next
    case False
    then show ?thesis
      using assms(2) s0(1,2,8) by (simp add: place_explicit_modulo)
  qed
  then obtain s1 where s1: "place_explicit s0 t = Inr s1" "step_in_cycle s1 = real_of_int (t mod F)"
      "cycle s1 = t div F" "cur_cycle_steps s1 = real_of_int F"
    by (elim exE conjE)
  have su1: "same_setup s0 s1" by (rule place_explicit_setup [OF s1(1)])
  have c1: "0 \<le> cycle s1"
    using s1(3) assms(2,3) by (simp add: pos_imp_zdiv_nonneg_iff)
  have "is_ok (finish_step s1 t) \<longleftrightarrow> (\<exists>rs. get_lr (state_of (finish_step s1 t)) = Inr rs)"
    by (rule finish_step_is_ok) (use c1 in simp)
  moreover have "\<exists>rs. get_lr (state_of (finish_step s1 t)) = Inr rs"
  proof (rule get_lr_returns)
    show "step_in_cycle (state_of (finish_step s1 t)) = -1 \<or> 0 \<le> step_in_cycle (state_of (finish_step s1 t))"
      using finish_step_position [of s1 t] s1(2) assms(2) by simp
    show "(0 < cycle (state_of (finish_step s1 t)) \<and> cycle_mult (state_of (finish_step s1 t)) = 0) \<or>
          cur_cycle_steps (state_of (finish_step s1 t)) \<noteq> real_of_int (warmup_steps (state_of (finish_step s1 t)))"
      using finish_step_position [of s1 t] finish_step_setup [of s1 t] su1 s1(4) s0(6) assms(1)
      by (simp add: same_setup_def)
  qed
  ultimately have "is_ok (step s0 (Some t))"
    using s1(1) by (simp add: step_def)
  then obtain se where se: "step s0 (Some t) = Ok se"
    by (cases "step s0 (Some t)") simp_all
  from step_Ok_place [OF se] s1
  have pe: "cycle se = t div F" "step_in_cycle se = real_of_int (t mod F)"
    "cur_cycle_steps se = real_of_int F"
    by simp_all
  have me: "max_lr se = mx * gm powi (t div F)"
    using step_Ok(1) [OF se] pe(1) s0(3,7) by simp
  have re: "get_lr se = Inr (group_lrs se)"
    by (rule step_Ok_rates [OF se len])
  have ee: "last_epoch se = t"
    using step_Ok(2) [OF se] by simp
  note fe = step_fields [OF se]
  \<comment> \<open>the repeated calls without argument\<close>
  let ?k = "nat (t - last_epoch s0)"
  have g0: "on_unit_grid s0"
    unfolding on_unit_grid_def using s0 assms(1,2) by simp
  from steps_on_unit_grid [OF g0, of ?k] obtain si
    where si: "steps ?k s0 = Ok si" and gi: "on_unit_grid si"
      and ei0: "last_epoch si = last_epoch s0 + int ?k" and sui: "same_setup s0 si"
      and ri: "0 < ?k \<longrightarrow> max_lr si = base_max_lr s0 * gamma s0 powi cycle si \<and>
                       get_lr si = Inr (group_lrs si)"
    by (elim exE conjE)
  have ei: "last_epoch si = t"
    using ei0 le0 assms(3) by simp
  have fi: "cycle_mult si = cycle_mult s0" "warmup_steps si = warmup_steps s0" "base_lrs si = base_lrs s0"
    "first_cycle_steps si = first_cycle_steps s0"
    using sui by (simp_all add: same_setup_def)
  have pi: "cycle si = t div F" "step_in_cycle si = real_of_int (t mod F)"
    "cur_cycle_steps si = real_of_int F"
    using gi ei assms(3) s0(1) fi(4) by (simp_all add: on_unit_grid_def)
  have mi: "max_lr si = mx * gm powi (t div F)"
  proof (cases "0 < ?k")
    case True
    with ri pi(1) s0(3,7) show ?thesis by simp
  next
    case False
    with si have "si = s0" by simp
    moreover from False le0 assms(3) have "t = 0" "last_epoch s0 = 0" by simp_all
    ultimately show ?thesis using s0(4) by simp
  qed
  have gl: "get_lr se = get_lr si"
    by (rule get_lr_cong) (simp_all add: pe pi me mi fe fi)
  have gr: "group_lrs se = group_lrs si" if "last_epoch s0 < t"
  proof -
    from that have "0 < ?k" by simp
    with ri have "get_lr si = Inr (group_lrs si)" by simp
    with gl re show ?thesis by simp
  qed
  have ai: "advance_to t s0 = Ok si"
    using si by (simp add: advance_to_def)
  have "cycle se = cycle si" "step_in_cycle se = step_in_cycle si"
    "cur_cycle_steps se = cur_cycle_steps si" "max_lr se = max_lr si"
    by (simp_all add: pe pi me mi)
  with se ai ee ei gl re gr show ?thesis by blast
qed

section \<open>Calls that return\<close>

lemma init_key_error:
  "w < F \<Longrightarrow> le \<noteq> -1 \<Longrightarrow> lacks_initial_lr g \<Longrightarrow>
   init b g F m mx mn w gm le = Inl KeyError"
  by (simp add: init_def)

lemma run_returns:
  assumes "P s" and "\<And>u a. P u \<Longrightarrow> a \<in> set as \<Longrightarrow> \<exists>u'. step u a = Ok u' \<and> P u'"
  shows "\<exists>s'. run s as = Ok s' \<and> P s'"
  using assms
proof (induction as arbitrary: s)
  case Nil
  then show ?case by simp
next
  case (Cons a as)
  have "\<exists>u'. step s a = Ok u' \<and> P u'"
    by (rule Cons.prems(2) [OF Cons.prems(1)]) simp
  then obtain u where u: "step s a = Ok u" and pu: "P u"
    by (elim exE conjE)
  have "\<exists>s'. run u as = Ok s' \<and> P s'"
  proof (rule Cons.IH [OF pu])
    fix v b
    assume "P v" "b \<in> set as"
    then show "\<exists>v'. step v b = Ok v' \<and> P v'"
      using Cons.prems(2) [of v b] by simp
  qed
  with u show ?case by simp
qed

lemma step_is_ok:
  assumes "case a of None \<Rightarrow> s1 = place_implicit s | Some t \<Rightarrow> place_explicit s t = Inr s1"
    and "gamma s1 \<noteq> 0 \<or> 0 \<le> cycle s1"
  shows "is_ok (step s a) \<longleftrightarrow> (\<exists>rs. get_lr (state_of (step s a)) = Inr rs)"
proof (cases a)
  case None
  with assms finish_step_is_ok [of s1 "last_epoch s + 1"] show ?thesis
    by (simp add: step_def)
next
  case (Some t)
  with assms finish_step_is_ok [of s1 t] show ?thesis
    by (simp add: step_def)
qed

lemma step_zero_mult_value_error:
  assumes "cycle_mult s = 0" and "first_cycle_steps s \<le> t" and "first_cycle_steps s \<noteq> 0"
  shows "step s (Some t) = Raised ValueError s"
  using assms by (simp add: step_def place_explicit_def math_log_def)

lemma get_lr_returns_warmup:
  assumes "warmup_steps s \<noteq> 0"
    and "(0 < cycle s \<and> cycle_mult s = 0) \<or> cur_cycle_steps s \<noteq> real_of_int (warmup_steps s)"
  shows "\<exists>rs. get_lr s = Inr rs"
proof (cases "(0 < cycle s \<and> cycle_mult s = 0) \<or> step_in_cycle s = -1")
  case True
  then show ?thesis by (auto simp add: get_lr_def)
next
  case False
  with assms have "cur_cycle_steps s \<noteq> real_of_int (warmup_steps s)" by auto
  then show ?thesis using False assms(1)
    by (auto simp add: get_lr_def warmup_lr_def cosine_lr_def py_div_def intro!: exI map_err_Inr)
qed

lemma step_zero_mult_returns:
  assumes m: "cycle_mult s = 0" and c: "0 \<le> cycle s"
    and z: "cycle s = 0 \<longrightarrow> cur_cycle_steps s = real_of_int (first_cycle_steps s) \<and>
                         (warmup_steps s = 0 \<longrightarrow> step_in_cycle s = -1 \<or> 0 \<le> step_in_cycle s)"
    and wF: "warmup_steps s < first_cycle_steps s"
    and pc: "safe_target s a"
  shows "\<exists>s'. step s a = Ok s' \<and> 0 \<le> cycle s' \<and>
           (cycle s' = 0 \<longrightarrow> cur_cycle_steps s' = real_of_int (first_cycle_steps s) \<and>
              (warmup_steps s = 0 \<longrightarrow> step_in_cycle s' = -1 \<or> 0 \<le> step_in_cycle s'))"
proof -
  let ?z = "state_of (step s a)"
  have "\<exists>s1. (case a of None \<Rightarrow> s1 = place_implicit s | Some t \<Rightarrow> place_explicit s t = Inr s1) \<and>
          0 \<le> cycle s1 \<and>
          (cycle s1 = 0 \<longrightarrow> cur_cycle_steps s1 = real_of_int (first_cycle_steps s) \<and>
             (warmup_steps s = 0 \<longrightarrow> step_in_cycle s1 = -1 \<or> 0 \<le> step_in_cycle s1))"
  proof (cases a)
    case None
    show ?thesis
    proof (cases "step_in_cycle s + 1 < cur_cycle_steps s")
      case True
      with None c z show ?thesis
        by (auto simp add: place_implicit_inside)
    next
      case False
      with None c show ?thesis
        by (simp add: place_implicit_restart)
    qed
  next
    case (Some t)
    with pc have t: "t < first_cycle_steps s" "warmup_steps s = 0 \<longrightarrow> -1 \<le> t"
      by (simp_all split: if_splits)
    have "warmup_steps s = 0 \<longrightarrow> real_of_int t = -1 \<or> 0 \<le> real_of_int t"
    proof
      assume "warmup_steps s = 0"
      with t(2) have "t = -1 \<or> 0 \<le> t" by linarith
      then show "real_of_int t = -1 \<or> 0 \<le> real_of_int t" by auto
    qed
    with Some c t(1) show ?thesis
      by (simp add: place_explicit_first_cycle)
  qed
  then obtain s1
    where p: "case a of None \<Rightarrow> s1 = place_implicit s | Some t \<Rightarrow> place_explicit s t = Inr s1"
      and c1: "0 \<le> cycle s1"
      and z1: "cycle s1 = 0 \<longrightarrow> cur_cycle_steps s1 = real_of_int (first_cycle_steps s) \<and>
             (warmup_steps s = 0 \<longrightarrow> step_in_cycle s1 = -1 \<or> 0 \<le> step_in_cycle s1)"
    by (elim exE conjE)
  have pos: "cycle ?z = cycle s1" "step_in_cycle ?z = step_in_cycle s1"
    "cur_cycle_steps ?z = cur_cycle_steps s1"
  proof -
    have "?z = state_of (finish_step s1 (case a of None \<Rightarrow> last_epoch s + 1 | Some t \<Rightarrow> t))"
      using p by (cases a) (simp_all add: step_def)
    then show "cycle ?z = cycle s1" "step_in_cycle ?z = step_in_cycle s1"
      "cur_cycle_steps ?z = cur_cycle_steps s1"
      using finish_step_position [of s1] by simp_all
  qed
  have fz: "cycle_mult ?z = 0" "warmup_steps ?z = warmup_steps s"
    using step_setup [of s a] m by (simp_all add: same_setup_def)
  have "\<exists>rs. get_lr ?z = Inr rs"
  proof (cases "0 < cycle ?z")
    case True
    with fz show ?thesis by (simp add: get_lr_def)
  next
    case False
    with pos c1 have "cycle s1 = 0" by simp
    with z1 have cur: "cur_cycle_steps s1 = real_of_int (first_cycle_steps s)"
      and sic: "warmup_steps s = 0 \<longrightarrow> step_in_cycle s1 = -1 \<or> 0 \<le> step_in_cycle s1"
      by simp_all
    show ?thesis
    proof (cases "warmup_steps s = 0")
      case True
      with sic have "step_in_cycle ?z = -1 \<or> 0 \<le> step_in_cycle ?z"
        using pos by simp
      then show ?thesis
        using pos fz wF cur by (intro get_lr_returns) simp_all
    next
      case False
      then show ?thesis
        using pos fz wF cur by (intro get_lr_returns_warmup) simp_all
    qed
  qed
  moreover have "is_ok (step s a) \<longleftrightarrow> (\<exists>rs. get_lr ?z = Inr rs)"
    by (rule step_is_ok [OF p]) (use c1 in simp)
  ultimately have "is_ok (step s a)" by simp
  then obtain s' where s': "step s a = Ok s'"
    by (cases "step s a") simp_all
  with pos c1 z1 show ?thesis by simp
qed

section \<open>The properties of the specification\<close>

subsection \<open>The rate query\<close>

text \<open>
  C2. In a started state (\<^verbatim>\<open>step_in_cycle >= 0\<close>) outside the guard for \<^verbatim>\<open>cycle > 0\<close> with
  \<^verbatim>\<open>cycle_mult == 0\<close>, \<^verbatim>\<open>get_lr\<close> gives for each group, from the group's base rate (the
  floor rate, see \<open>init_fields\<close>): below \<^verbatim>\<open>warmup_steps\<close> the linear interpolation to
  \<^verbatim>\<open>max_lr\<close> with fraction \<^verbatim>\<open>step_in_cycle / warmup_steps\<close>, otherwise the cosine value
  \<^verbatim>\<open>base + (max_lr - base) * (1 + cos(pi * (step_in_cycle - warmup_steps) / (cur_cycle_steps - warmup_steps))) / 2\<close>.
  Where the divisor of the cosine formula is zero the formula has no value and the query
  raises \<^verbatim>\<open>ZeroDivisionError\<close>; the divisor of the linear formula is never zero in a
  started state.
\<close>

theorem get_lr_started:
  assumes "0 \<le> step_in_cycle s" and "\<not> (cycle s > 0 \<and> cycle_mult s = 0)"
  shows "get_lr s =
     (if step_in_cycle s < real_of_int (warmup_steps s) then
        Inr (map (\<lambda>base_lr. (max_lr s - base_lr) * step_in_cycle s / real_of_int (warmup_steps s) + base_lr)
                 (base_lrs s))
      else if cur_cycle_steps s = real_of_int (warmup_steps s) \<and> base_lrs s \<noteq> [] then Inl ZeroDivisionError
      else
        Inr (map (\<lambda>base_lr. base_lr + (max_lr s - base_lr)
                     * (1 + cos (pi * (step_in_cycle s - real_of_int (warmup_steps s))
                                 / (cur_cycle_steps s - real_of_int (warmup_steps s)))) / 2)
                 (base_lrs s)))"
proof (cases "step_in_cycle s < real_of_int (warmup_steps s)")
  case True
  with assms(1) have w: "real_of_int (warmup_steps s) \<noteq> 0" by linarith
  have "map_err (warmup_lr s) (base_lrs s) =
        Inr (map (\<lambda>base_lr. (max_lr s - base_lr) * step_in_cycle s / real_of_int (warmup_steps s) + base_lr)
                 (base_lrs s))"
    by (rule map_err_Inr) (use w in \<open>simp add: warmup_lr_def py_div_def\<close>)
  with True assms show ?thesis by (auto simp add: get_lr_def)
next
  case False
  show ?thesis
  proof (cases "cur_cycle_steps s = real_of_int (warmup_steps s)")
    case True
    have "map_err (cosine_lr s) (base_lrs s) = (if base_lrs s = [] then Inr [] else Inl ZeroDivisionError)"
      using True by (cases "base_lrs s") (simp_all add: cosine_lr_def py_div_def)
    with True False assms show ?thesis by (auto simp add: get_lr_def)
  next
    case neq: False
    have "map_err (cosine_lr s) (base_lrs s) =
        Inr (map (\<lambda>base_lr. base_lr + (max_lr s - base_lr)
                     * (1 + cos (pi * (step_in_cycle s - real_of_int (warmup_steps s))
                                 / (cur_cycle_steps s - real_of_int (warmup_steps s)))) / 2)
                 (base_lrs s))"
      by (rule map_err_Inr) (use neq in \<open>simp add: cosine_lr_def py_div_def\<close>)
    with neq False assms show ?thesis by (auto simp add: get_lr_def)
  qed
qed

theorem get_lr_started_witness:
  "get_lr \<lparr>first_cycle_steps = 10, cycle_mult = 1, base_max_lr = 1/10, max_lr = 1/10, min_lr = 0,
           warmup_steps = 2, gamma = 1, cur_cycle_steps = 10, cycle = 0, step_in_cycle = 1,
           last_epoch = 1, base_lrs = [0, 1/50], group_lrs = [0, 0]\<rparr> = Inr [1/20, 3/50]
   \<and> get_lr \<lparr>first_cycle_steps = 10, cycle_mult = 1, base_max_lr = 1/10, max_lr = 1/10, min_lr = 0,
           warmup_steps = 2, gamma = 1, cur_cycle_steps = 10, cycle = 0, step_in_cycle = 10,
           last_epoch = 10, base_lrs = [0, 1/50], group_lrs = [0, 0]\<rparr> = Inr [0, 1/50]
   \<and> get_lr \<lparr>first_cycle_steps = 10, cycle_mult = 1/20, base_max_lr = 1/10, max_lr = 1/10, min_lr = 0,
           warmup_steps = 0, gamma = 1, cur_cycle_steps = 0, cycle = 1, step_in_cycle = 0,
           last_epoch = 10, base_lrs = [0], group_lrs = [0]\<rparr> = Inl ZeroDivisionError"
  using get_lr_started [of "\<lparr>first_cycle_steps = 10, cycle_mult = 1, base_max_lr = 1/10, max_lr = 1/10, min_lr = 0,
           warmup_steps = 2, gamma = 1, cur_cycle_steps = 10, cycle = 0, step_in_cycle = 1,
           last_epoch = 1, base_lrs = [0, 1/50], group_lrs = [0, 0]\<rparr>"]
    get_lr_started [of "\<lparr>first_cycle_steps = 10, cycle_mult = 1, base_max_lr = 1/10, max_lr = 1/10, min_lr = 0,
           warmup_steps = 2, gamma = 1, cur_cycle_steps = 10, cycle = 0, step_in_cycle = 10,
           last_epoch = 10, base_lrs = [0, 1/50], group_lrs = [0, 0]\<rparr>"]
    get_lr_started [of "\<lparr>first_cycle_steps = 10, cycle_mult = 1/20, base_max_lr = 1/10, max_lr = 1/10, min_lr = 0,
           warmup_steps = 0, gamma = 1, cur_cycle_steps = 0, cycle = 1, step_in_cycle = 0,
           last_epoch = 10, base_lrs = [0], group_lrs = [0]\<rparr>"]
  by simp

subsection \<open>Construction\<close>

text \<open>
  C10, as amended. The constructor raises \<^verbatim>\<open>AssertionError\<close> exactly when
  \<^verbatim>\<open>warmup_steps >= first_cycle_steps\<close>, for every value of the other arguments; the source
  has no other check of its arguments. With \<^verbatim>\<open>warmup_steps < first_cycle_steps\<close>, a positive
  \<^verbatim>\<open>first_cycle_steps\<close> and the default \<^verbatim>\<open>last_epoch = -1\<close> it returns an object for every
  \<^verbatim>\<open>cycle_mult\<close>, \<^verbatim>\<open>max_lr\<close>, \<^verbatim>\<open>min_lr\<close> and \<^verbatim>\<open>gamma\<close>, of any sign or magnitude. With another
  \<^verbatim>\<open>last_epoch\<close> and a group without \<^verbatim>\<open>'initial_lr'\<close> (a new optimizer) the base constructor
  raises \<^verbatim>\<open>KeyError\<close>.
\<close>

theorem init_only_check:
  "(init b g F m mx mn w gm le = Inl AssertionError \<longleftrightarrow> F \<le> w) \<and>
   (w < F \<and> 0 < F \<and> le = -1 \<longrightarrow> (\<exists>s. init b g F m mx mn w gm le = Inr s)) \<and>
   (w < F \<and> le \<noteq> -1 \<and> lacks_initial_lr g \<longrightarrow> init b g F m mx mn w gm le = Inl KeyError)"
proof (intro conjI impI)
  show "init b g F m mx mn w gm le = Inl AssertionError \<longleftrightarrow> F \<le> w"
    using init_assert [of w F b g m mx mn gm le] init_error [of b g F m mx mn w gm le]
    by auto
next
  assume a: "w < F \<and> 0 < F \<and> le = -1"
  show "\<exists>s. init b g F m mx mn w gm le = Inr s"
  proof (cases b)
    case True
    with a init_base_step [of w F g m mx mn gm] show ?thesis by auto
  next
    case False
    with a init_no_base_step [of w F g m mx mn gm] show ?thesis by auto
  qed
next
  assume "w < F \<and> le \<noteq> -1 \<and> lacks_initial_lr g"
  then show "init b g F m mx mn w gm le = Inl KeyError"
    by (simp add: init_key_error)
qed

theorem init_only_check_witness:
  "(\<exists>s. init True [new_group (1/100)] 10 (-3) (-1/10) (-7) 2 (-5) (-1) = Inr s) \<and>
   init True [new_group (1/100)] 10 1 (1/10) (1/1000) 10 1 (-1) = Inl AssertionError \<and>
   init True [new_group (1/100)] 10 1 (1/10) (1/1000) 2 1 12 = Inl KeyError"
  using init_only_check [of True "[new_group (1/100)]" 10 "-3" "-1/10" "-7" 2 "-5" "-1"]
    init_only_check [of True "[new_group (1/100)]" 10 1 "1/10" "1/1000" 10 1 "-1"]
    init_only_check [of True "[new_group (1/100)]" 10 1 "1/10" "1/1000" 2 1 12]
  by (simp add: new_group_def)

text \<open>
  C10 as stated fails: other values than \<^verbatim>\<open>warmup_steps >= first_cycle_steps\<close> are refused,
  with other errors. With \<^verbatim>\<open>first_cycle_steps = 0\<close>, \<^verbatim>\<open>warmup_steps = -1\<close> and
  \<^verbatim>\<open>cycle_mult = 0.5\<close> the first \<^verbatim>\<open>step()\<close> of the base constructor restarts at once with
  \<^verbatim>\<open>cur_cycle_steps = int(1 * 0.5) - 1 = warmup_steps\<close> and the rate query raises
  \<^verbatim>\<open>ZeroDivisionError\<close>. With \<^verbatim>\<open>last_epoch = 12\<close> on a new optimizer the base constructor
  raises \<^verbatim>\<open>KeyError\<close>.
\<close>

theorem init_other_errors_counterexample:
  "init True [new_group (1/100)] 0 (1/2) (1/10) (1/1000) (-1) 1 (-1) = Inl ZeroDivisionError \<and>
   init True [new_group (1/100)] 10 1 (1/10) (1/1000) 2 1 12 = Inl KeyError"
  by (simp add: init_def build_def new_group_def initial_of_def step_eval py_int_def)

text \<open>
  C6, as amended. After construction with the default \<^verbatim>\<open>last_epoch = -1\<close> every group's
  stored rate and base rate is \<^verbatim>\<open>min_lr\<close>. The query \<^verbatim>\<open>get_lr\<close> returns \<^verbatim>\<open>min_lr\<close> for every
  group when \<^verbatim>\<open>warmup_steps > 0\<close>, and also when the base constructor makes no first
  \<^verbatim>\<open>step()\<close>. With \<^verbatim>\<open>warmup_steps = 0\<close>, after the first \<^verbatim>\<open>step()\<close> of the base constructor
  the object is at \<^verbatim>\<open>step_in_cycle = 0\<close> and the query returns \<^verbatim>\<open>max_lr\<close> for every group.
\<close>

theorem init_rates:
  assumes "w < F" and "b \<longrightarrow> 0 < F"
  shows "\<exists>s. init b g F m mx mn w gm (-1) = Inr s \<and>
           group_lrs s = replicate (length g) mn \<and>
           base_lrs s = replicate (length g) mn \<and>
           (0 < w \<or> \<not> b \<longrightarrow> get_lr s = Inr (replicate (length g) mn)) \<and>
           (b \<and> w = 0 \<longrightarrow> get_lr s = Inr (replicate (length g) mx))"
proof (cases b)
  case False
  then show ?thesis
    using init_no_base_step [OF assms(1), of g m mx mn gm] by (simp add: get_lr_def)
next
  case True
  with assms have F: "0 < F" by simp
  show ?thesis
    using True assms(1) F init_base_step [OF assms(1) F, of g m mx mn gm]
    by (auto simp add: get_lr_def map_err_replicate warmup_lr_def cosine_lr_def py_div_def field_simps)
qed

theorem init_rates_witness:
  "\<exists>s. init True [new_group (1/5), new_group (1/7)] 10 1 (1/10) (1/1000) 3 1 (-1) = Inr s \<and>
       group_lrs s = [1/1000, 1/1000] \<and> get_lr s = Inr [1/1000, 1/1000]"
  using init_rates [of 3 10 True "[new_group (1/5), new_group (1/7)]" 1 "1/10" "1/1000" 1]
  by (auto simp add: numeral_2_eq_2)

text \<open>
  C6 as stated fails for \<^verbatim>\<open>warmup_steps = 0\<close>, the default: with the defaults
  \<^verbatim>\<open>max_lr = 0.1\<close>, \<^verbatim>\<open>min_lr = 0.001\<close> and \<^verbatim>\<open>first_cycle_steps = 10\<close> the stored rate is
  \<^verbatim>\<open>0.001\<close> and the query returns \<^verbatim>\<open>0.1\<close>.
\<close>

theorem init_query_counterexample:
  "\<exists>s. init True [new_group (1/5)] 10 1 (1/10) (1/1000) 0 1 (-1) = Inr s \<and>
       group_lrs s = [1/1000] \<and> get_lr s = Inr [1/10] \<and> get_lr s \<noteq> Inr [min_lr s]"
  using init_base_step [of 0 10 "[new_group (1/5)]" 1 "1/10" "1/1000" 1]
  by (simp add: get_lr_def cosine_lr_def py_div_def)

subsection \<open>The step counter\<close>

text \<open>
  C8, as amended. A call of \<^verbatim>\<open>step\<close> that returns sets \<^verbatim>\<open>last_epoch\<close> to the old value plus
  one when it has no argument, and to its argument otherwise. So the counter never
  decreases along a sequence of calls in which no argument is below the counter at the
  time of its call; in particular along every sequence of calls without argument.
\<close>

theorem last_epoch_forward:
  "(step s a = Ok s' \<longrightarrow> last_epoch s' = (case a of None \<Rightarrow> last_epoch s + 1 | Some t \<Rightarrow> t)) \<and>
   (forward_args (last_epoch s) as \<longrightarrow> sorted (map last_epoch (trace s as)))"
  using step_Ok(2) [of s a s'] trace_forward [of s as] by blast

theorem last_epoch_forward_witness:
  "map last_epoch (trace \<lparr>first_cycle_steps = 10, cycle_mult = 1, base_max_lr = 1/10, max_lr = 1/10,
       min_lr = 1/1000, warmup_steps = 2, gamma = 1, cur_cycle_steps = 10, cycle = 0,
       step_in_cycle = 0, last_epoch = 0, base_lrs = [1/1000], group_lrs = [1/1000]\<rparr>
       [None, Some 5, None]) = [0, 1, 5, 6] \<and>
   sorted (map last_epoch (trace \<lparr>first_cycle_steps = 10, cycle_mult = 1, base_max_lr = 1/10, max_lr = 1/10,
       min_lr = 1/1000, warmup_steps = 2, gamma = 1, cur_cycle_steps = 10, cycle = 0,
       step_in_cycle = 0, last_epoch = 0, base_lrs = [1/1000], group_lrs = [1/1000]\<rparr>
       [None, Some 5, None]))"
proof -
  let ?s = "\<lparr>first_cycle_steps = 10, cycle_mult = 1, base_max_lr = 1/10, max_lr = 1/10,
       min_lr = 1/1000, warmup_steps = 2, gamma = 1, cur_cycle_steps = 10, cycle = 0,
       step_in_cycle = 0, last_epoch = 0, base_lrs = [1/1000], group_lrs = [1/1000]\<rparr>"
  have "forward_args (last_epoch ?s) [None, Some 5, None]" by simp
  with last_epoch_forward [of ?s None ?s "[None, Some 5, None]"]
  have "sorted (map last_epoch (trace ?s [None, Some 5, None]))" by blast
  moreover have "map last_epoch (trace ?s [None, Some 5, None]) = [0, 1, 5, 6]"
    by (simp add: step_eval)
  ultimately show ?thesis by simp
qed

text \<open>
  C8 as stated fails: \<^verbatim>\<open>step(5)\<close> followed by \<^verbatim>\<open>step(2)\<close> takes the counter from 5 back
  to 2. Nothing in \<^verbatim>\<open>step\<close> compares the argument with the counter.
\<close>

theorem last_epoch_decreases_counterexample:
  "(\<exists>s. init True [new_group (1/10)] 10 1 (1/10) (1/1000) 2 1 (-1) = Inr s \<and>
        map last_epoch (trace s [Some 5, Some 2]) = [0, 5, 2]) \<and>
   (\<exists>s. init False [new_group (1/10)] 10 1 (1/10) (1/1000) 2 1 (-1) = Inr s \<and>
        map last_epoch (trace s [Some 5, Some 2]) = [-1, 5, 2])"
  using init_base_step [of 2 10 "[new_group (1/10)]" 1 "1/10" "1/1000" 1]
    init_no_base_step [of 2 10 "[new_group (1/10)]" 1 "1/10" "1/1000" 1]
  by (simp add: step_eval)

subsection \<open>A zero multiplier\<close>

text \<open>
  C9, as amended. For a valid configuration with \<^verbatim>\<open>cycle_mult == 0\<close>, every sequence of calls
  of \<^verbatim>\<open>step\<close> without argument, or with a target \<open>t\<close> below \<^verbatim>\<open>first_cycle_steps\<close> (and not
  below \<open>-1\<close> when \<^verbatim>\<open>warmup_steps\<close> is zero), returns: no call raises. In the state \<open>s\<close> it
  reaches, when \<^verbatim>\<open>cycle > 0\<close> the query returns the floor rate for every group, through the
  guard; when \<^verbatim>\<open>cycle\<close> is not positive the divisor \<^verbatim>\<open>cur_cycle_steps - warmup_steps\<close> is not
  zero; and the query returns. Whatever the next call is, the object it leaves is under the
  guard or has a divisor that is not zero, so the division by
  \<^verbatim>\<open>cur_cycle_steps - warmup_steps\<close> is never evaluated at zero. A target
  \<^verbatim>\<open>t >= first_cycle_steps\<close> raises \<^verbatim>\<open>ValueError\<close> in \<^verbatim>\<open>math.log\<close> and leaves the object as it
  was.
\<close>

theorem zero_mult_guard:
  assumes "w < F" and "0 < F" and "init b g F 0 mx mn w gm (-1) = Inr s0"
    and "\<forall>a \<in> set as. safe_target s0 a"
  shows "\<exists>s. run s0 as = Ok s \<and>
           (0 < cycle s \<longrightarrow> get_lr s = Inr (replicate (length g) mn)) \<and>
           (\<not> 0 < cycle s \<longrightarrow> cur_cycle_steps s - real_of_int (warmup_steps s) \<noteq> 0) \<and>
           (\<exists>rs. get_lr s = Inr rs) \<and>
           (\<forall>a. 0 < cycle (state_of (step s a)) \<or>
                cur_cycle_steps (state_of (step s a)) - real_of_int (warmup_steps s) \<noteq> 0) \<and>
           (\<forall>t. F \<le> t \<longrightarrow> step s (Some t) = Raised ValueError s)"
proof -
  note s0 = init_fields [OF assms(1,2,3)]
  define P where "P u \<longleftrightarrow> cycle_mult u = 0 \<and> first_cycle_steps u = F \<and> warmup_steps u = w \<and>
      base_lrs u = replicate (length g) mn \<and> 0 \<le> cycle u \<and>
      (cycle u = 0 \<longrightarrow> cur_cycle_steps u = real_of_int F \<and>
                        (w = 0 \<longrightarrow> step_in_cycle u = -1 \<or> 0 \<le> step_in_cycle u)) \<and>
      (\<exists>rs. get_lr u = Inr rs)" for u :: sched
  have g0: "\<exists>rs. get_lr s0 = Inr rs"
    by (rule get_lr_returns) (use s0 assms(1) in auto)
  have P0: "P s0"
    unfolding P_def using s0(1,2,6,8,9,10,12) g0 by simp
  have Pstep: "\<exists>u'. step u a = Ok u' \<and> P u'" if u: "P u" and a: "a \<in> set as" for u a
  proof -
    from u have f: "cycle_mult u = 0" "first_cycle_steps u = F" "warmup_steps u = w"
      "base_lrs u = replicate (length g) mn"
      and c: "0 \<le> cycle u"
      and z: "cycle u = 0 \<longrightarrow> cur_cycle_steps u = real_of_int F \<and>
                        (w = 0 \<longrightarrow> step_in_cycle u = -1 \<or> 0 \<le> step_in_cycle u)"
      by (simp_all add: P_def)
    have pc: "safe_target u a"
      using assms(4) a f(2,3) s0(1,6) by (cases a) auto
    have "\<exists>s'. step u a = Ok s' \<and> 0 \<le> cycle s' \<and>
           (cycle s' = 0 \<longrightarrow> cur_cycle_steps s' = real_of_int (first_cycle_steps u) \<and>
              (warmup_steps u = 0 \<longrightarrow> step_in_cycle s' = -1 \<or> 0 \<le> step_in_cycle s'))"
      by (rule step_zero_mult_returns [OF f(1) c _ _ pc]) (simp_all add: z f assms(1))
    then obtain u' where st: "step u a = Ok u'" and c': "0 \<le> cycle u'"
      and z': "cycle u' = 0 \<longrightarrow> cur_cycle_steps u' = real_of_int (first_cycle_steps u) \<and>
              (warmup_steps u = 0 \<longrightarrow> step_in_cycle u' = -1 \<or> 0 \<le> step_in_cycle u')"
      by (elim exE conjE)
    have "\<exists>rs. get_lr u' = Inr rs"
      using step_Ok(3) [OF st] by blast
    then have "P u'"
      unfolding P_def using step_fields [OF st] f c' z' by simp
    with st show ?thesis by blast
  qed
  have "\<exists>s'. run s0 as = Ok s' \<and> P s'"
    by (rule run_returns [where P = P, OF P0]) (rule Pstep)
  then obtain s where r: "run s0 as = Ok s" and s: "P s"
    by (elim exE conjE)
  from s have f: "cycle_mult s = 0" "first_cycle_steps s = F" "warmup_steps s = w"
      "base_lrs s = replicate (length g) mn"
      and c: "0 \<le> cycle s"
      and z: "cycle s = 0 \<longrightarrow> cur_cycle_steps s = real_of_int F"
      and rs: "\<exists>rs. get_lr s = Inr rs"
    by (simp_all add: P_def)
  have a1: "0 < cycle s \<longrightarrow> get_lr s = Inr (replicate (length g) mn)"
    using f by (simp add: get_lr_def)
  have a2: "\<not> 0 < cycle s \<longrightarrow> cur_cycle_steps s - real_of_int (warmup_steps s) \<noteq> 0"
    using c z f(3) assms(1) by auto
  have a3: "0 < cycle (state_of (step s a)) \<or>
        cur_cycle_steps (state_of (step s a)) - real_of_int (warmup_steps s) \<noteq> 0" for a
    using step_zero_mult [of s a] f c z assms(1) by force
  have a4: "step s (Some t) = Raised ValueError s" if "F \<le> t" for t
    by (rule step_zero_mult_value_error) (use that f assms(2) in simp_all)
  from r a1 a2 rs a3 a4 show ?thesis by blast
qed

theorem zero_mult_guard_witness:
  "\<exists>s0 s. init True [new_group (1/10), new_group (1/10)] 2 0 (1/10) (1/1000) 0 1 (-1) = Inr s0 \<and>
          run s0 [Some (-1), None, None, None] = Ok s \<and> cycle s = 1 \<and>
          step_in_cycle s = 0 \<and> cur_cycle_steps s = real_of_int (warmup_steps s) \<and>
          get_lr s = Inr [1/1000, 1/1000]"
proof -
  let ?g = "[new_group (1/10), new_group (1/10)]"
  let ?init = "\<lparr>first_cycle_steps = 2, cycle_mult = 0, base_max_lr = 1/10, max_lr = 1/10, min_lr = 1/1000,
          warmup_steps = 0, gamma = 1, cur_cycle_steps = real_of_int 2, cycle = 0,
          step_in_cycle = 0, last_epoch = 0,
          base_lrs = replicate (length ?g) (1/1000),
          group_lrs = replicate (length ?g) (1/1000)\<rparr>"
  have i: "init True ?g 2 0 (1/10) (1/1000) 0 1 (-1) = Inr ?init"
    by (rule init_base_step) simp_all
  have p: "\<forall>a \<in> set [Some (-1), None, None, None]. safe_target ?init a"
    by simp
  from zero_mult_guard [OF _ _ i p] obtain s
    where r: "run ?init [Some (-1), None, None, None] = Ok s"
      and q: "0 < cycle s \<longrightarrow> get_lr s = Inr (replicate (length ?g) (1/1000))"
    by auto
  have e: "run ?init [Some (-1), None, None, None] =
        Ok \<lparr>first_cycle_steps = 2, cycle_mult = 0, base_max_lr = 1/10, max_lr = 1/10, min_lr = 1/1000,
          warmup_steps = 0, gamma = 1, cur_cycle_steps = 0, cycle = 1,
          step_in_cycle = 0, last_epoch = 2,
          base_lrs = [1/1000, 1/1000], group_lrs = [1/1000, 1/1000]\<rparr>"
    by (simp add: step_eval py_int_def numeral_2_eq_2)
  with i r q show ?thesis
    by (simp add: numeral_2_eq_2)
qed

text \<open>
  C9 as stated fails: the rate query has a second division, by \<^verbatim>\<open>warmup_steps\<close>, which the
  guard does not cover while \<^verbatim>\<open>cycle == 0\<close>. With \<^verbatim>\<open>cycle_mult = 0\<close> and \<^verbatim>\<open>warmup_steps = 0\<close>
  the call \<^verbatim>\<open>step(-3)\<close> on the new object sets \<^verbatim>\<open>step_in_cycle = -3\<close>, below
  \<^verbatim>\<open>warmup_steps\<close>, and \<^verbatim>\<open>get_lr\<close> raises \<^verbatim>\<open>ZeroDivisionError\<close>.
\<close>

theorem zero_mult_negative_target_counterexample:
  "\<exists>s0 s'. init True [new_group (1/10)] 10 0 (1/10) (1/1000) 0 1 (-1) = Inr s0 \<and>
           step s0 (Some (-3)) = Raised ZeroDivisionError s' \<and>
           cycle_mult s' = 0 \<and> cycle s' = 0 \<and> step_in_cycle s' = -3 \<and>
           get_lr s' = Inl ZeroDivisionError"
  using init_base_step [of 0 10 "[new_group (1/10)]" 0 "1/10" "1/1000" 1]
  by (simp add: step_eval)

subsection \<open>The cycle length\<close>

text \<open>
  C7 does not hold of the code. The restart of a call without argument (line 77) makes
  \<^verbatim>\<open>cur_cycle_steps\<close> an integer with \<^verbatim>\<open>int(...)\<close> (\<open>step_implicit_Ints\<close>); the explicit
  placement of line 87 assigns \<^verbatim>\<open>first_cycle_steps * cycle_mult ** n\<close> as it is. With
  \<^verbatim>\<open>first_cycle_steps = 3\<close>, \<^verbatim>\<open>cycle_mult = 1.5\<close>, \<^verbatim>\<open>warmup_steps = 0\<close>, the call \<^verbatim>\<open>step(3)\<close> on a
  new object gives \<^verbatim>\<open>n = 1\<close> and \<^verbatim>\<open>cur_cycle_steps = 4.5\<close>.
\<close>

theorem explicit_cycle_length_fraction:
  "(\<exists>s0 s. init True [new_group (1/10)] 3 (3/2) (1/10) (1/1000) 0 1 (-1) = Inr s0 \<and>
           step s0 (Some 3) = Ok s \<and> cycle s = 1 \<and> step_in_cycle s = 0 \<and>
           cur_cycle_steps s = 9/2 \<and> cur_cycle_steps s \<notin> \<int>) \<and>
   (\<exists>s0 s. init False [new_group (1/10)] 3 (3/2) (1/10) (1/1000) 0 1 (-1) = Inr s0 \<and>
           step s0 (Some 3) = Ok s \<and> cycle s = 1 \<and> step_in_cycle s = 0 \<and>
           cur_cycle_steps s = 9/2 \<and> cur_cycle_steps s \<notin> \<int>)"
  using init_base_step [of 0 3 "[new_group (1/10)]" "3/2" "1/10" "1/1000" 1]
    init_no_base_step [of 0 3 "[new_group (1/10)]" "3/2" "1/10" "1/1000" 1]
    nine_halves_not_int
  by (simp add: step_eval py_int_def)

subsection \<open>Invariants of the reachable states\<close>




subsection \<open>A full cycle\<close>

text \<open>
  C4. For a valid configuration (\<^verbatim>\<open>0 <= warmup_steps < first_cycle_steps\<close>, a multiplier that
  is not negative), the new object is at \<^verbatim>\<open>step_in_cycle = 0\<close> with
  \<^verbatim>\<open>cur_cycle_steps = first_cycle_steps\<close>, the base constructor having made the first
  \<^verbatim>\<open>step()\<close>. Exactly \<^verbatim>\<open>cur_cycle_steps\<close> calls of \<^verbatim>\<open>step()\<close> bring it back to
  \<^verbatim>\<open>step_in_cycle = 0\<close> with \<^verbatim>\<open>cycle\<close> one more, \<^verbatim>\<open>max_lr\<close> multiplied by \<^verbatim>\<open>gamma\<close> and
  \<^verbatim>\<open>cur_cycle_steps = floor((cur_cycle_steps - warmup_steps) * cycle_mult) + warmup_steps\<close>.
  The first calls all return. The last one has made these assignments when it reaches the
  rate query; it returns unless the new cycle length equals \<^verbatim>\<open>warmup_steps\<close> there
  (\<^verbatim>\<open>warmup_steps = 0\<close> and \<^verbatim>\<open>first_cycle_steps * cycle_mult < 1\<close>), where the query raises and
  the object keeps the assignments. For a base constructor that makes no first step the
  count is one more (\<open>full_cycle_unstarted\<close>).
\<close>

theorem full_cycle_restart:
  assumes "0 \<le> w" and "w < F" and "0 \<le> m" and "init True g F m mx mn w gm (-1) = Inr s0"
  shows "cur_cycle_steps s0 = real_of_int F \<and> step_in_cycle s0 = 0 \<and>
         step_in_cycle (state_of (steps (nat F) s0)) = 0 \<and>
         cycle (state_of (steps (nat F) s0)) = cycle s0 + 1 \<and>
         max_lr (state_of (steps (nat F) s0)) = max_lr s0 * gm \<and>
         cur_cycle_steps (state_of (steps (nat F) s0)) =
           real_of_int (\<lfloor>(cur_cycle_steps s0 - real_of_int w) * m\<rfloor> + w) \<and>
         (is_ok (steps (nat F) s0) \<longleftrightarrow> g = [] \<or> 0 < w \<or> m = 0 \<or> 1 \<le> real_of_int F * m)"
proof -
  have F: "0 < F" using assms(1,2) by simp
  note s0 = init_fields [OF assms(2) F assms(4)]
  let ?z = "state_of (steps (nat F) s0)"
  have sic: "step_in_cycle s0 = real_of_int 0" using s0(10) by simp
  have wF: "warmup_steps s0 \<noteq> F" using s0(6) assms(2) by simp
  have c0: "0 \<le> cycle s0" using s0(9) by simp
  note cc = cycle_completion [OF sic s0(8) _ F wF c0, simplified]
  have nn: "0 \<le> real_of_int (F - w) * m"
    using assms(2,3) by simp
  have z1: "step_in_cycle ?z = 0" by (rule cc(1))
  have z2: "cycle ?z = 1" using cc(2) s0(9) by simp
  have z3: "cur_cycle_steps ?z = real_of_int (\<lfloor>real_of_int (F - w) * m\<rfloor> + w)"
    using cc(3) s0(2,6) nn by (simp add: py_int_nonneg)
  have z4: "max_lr ?z = mx * gm" using cc(4) s0(3,7,9) by simp
  have su: "warmup_steps ?z = w" "cycle_mult ?z = m" "base_lrs ?z = replicate (length g) mn"
    using cc(6) s0(2,6,12) by (simp_all add: same_setup_def)
  have ok: "is_ok (steps (nat F) s0) \<longleftrightarrow> g = [] \<or> 0 < w \<or> m = 0 \<or> 1 \<le> real_of_int F * m"
  proof -
    have "(\<exists>rs. get_lr ?z = Inr rs) \<longleftrightarrow> g = [] \<or> 0 < w \<or> m = 0 \<or> 1 \<le> real_of_int F * m"
    proof (cases "m = 0 \<or> 0 < w \<or> g = []")
      case True
      then show ?thesis
        using z1 z2 su by (auto simp add: get_lr_def map_err_replicate warmup_lr_def py_div_def)
    next
      case False
      with assms(1) have w0: "w = 0" and m: "m \<noteq> 0" and g: "g \<noteq> []" by auto
      have "cur_cycle_steps ?z = 0 \<longleftrightarrow> \<not> 1 \<le> real_of_int F * m"
        using z3 w0 nn by (simp add: floor_eq_iff not_le)
      then show ?thesis
        using z1 z2 su w0 m g
        by (auto simp add: get_lr_def map_err_replicate cosine_lr_def py_div_def)
    qed
    with cc(7) show ?thesis by simp
  qed
  show ?thesis
    using s0(4,8,9,10) z1 z2 z3 z4 ok by simp
qed

theorem full_cycle_restart_witness:
  "\<exists>s0. init True [new_group (1/5)] 10 (3/2) (1/10) (1/1000) 2 (1/2) (-1) = Inr s0 \<and>
        step_in_cycle (state_of (steps 10 s0)) = 0 \<and>
        cycle (state_of (steps 10 s0)) = 1 \<and>
        max_lr (state_of (steps 10 s0)) = 1/20 \<and>
        cur_cycle_steps (state_of (steps 10 s0)) = 14 \<and>
        is_ok (steps 10 s0)"
proof -
  from init_base_step [of 2 10 "[new_group (1/5)]" "3/2" "1/10" "1/1000" "1/2"]
  obtain s0 where i: "init True [new_group (1/5)] 10 (3/2) (1/10) (1/1000) 2 (1/2) (-1) = Inr s0"
    by auto
  have "\<lfloor>(real_of_int 10 - real_of_int 2) * (3/2::real)\<rfloor> = 12" by simp
  with full_cycle_restart [OF _ _ _ i] init_fields(4,9) [OF _ _ i] show ?thesis
    using i by simp
qed

subsection \<open>The concrete scenario\<close>

text \<open>
  C3. With \<^verbatim>\<open>first_cycle_steps=10, warmup_steps=2, max_lr=0.1, min_lr=0.0, cycle_mult=1.0, gamma=1.0\<close>,
  for any groups of the optimizer and whether or not the base constructor makes the first
  step: stepping without argument until the counter is 0, 1, 2, 6 and 10, the rate of every
  group (stored, and returned by the query) is 0, 0.05, 0.1, 0.05 and 0, and \<^verbatim>\<open>cycle\<close> is 1
  at step 10. Rates are exact reals here.
\<close>

theorem concrete_schedule:
  "\<exists>s0. init b g 10 1 (1/10) 0 2 1 (-1) = Inr s0 \<and>
     (\<exists>s. advance_to 0 s0 = Ok s \<and> last_epoch s = 0 \<and>
          group_lrs s = replicate (length g) 0 \<and> get_lr s = Inr (replicate (length g) 0)) \<and>
     (\<exists>s. advance_to 1 s0 = Ok s \<and> last_epoch s = 1 \<and>
          group_lrs s = replicate (length g) (1/20) \<and> get_lr s = Inr (replicate (length g) (1/20))) \<and>
     (\<exists>s. advance_to 2 s0 = Ok s \<and> last_epoch s = 2 \<and>
          group_lrs s = replicate (length g) (1/10) \<and> get_lr s = Inr (replicate (length g) (1/10))) \<and>
     (\<exists>s. advance_to 6 s0 = Ok s \<and> last_epoch s = 6 \<and>
          group_lrs s = replicate (length g) (1/20) \<and> get_lr s = Inr (replicate (length g) (1/20))) \<and>
     (\<exists>s. advance_to 10 s0 = Ok s \<and> last_epoch s = 10 \<and> cycle s = 1 \<and>
          group_lrs s = replicate (length g) 0 \<and> get_lr s = Inr (replicate (length g) 0))"
proof (cases b)
  case True
  let ?a = "\<lparr>first_cycle_steps = 10, cycle_mult = 1, base_max_lr = 1/10, max_lr = 1/10, min_lr = 0,
          warmup_steps = 2, gamma = 1, cur_cycle_steps = real_of_int 10, cycle = 0,
          step_in_cycle = 0, last_epoch = 0,
          base_lrs = replicate (length g) 0, group_lrs = replicate (length g) 0\<rparr>"
  have i: "init b g 10 1 (1/10) 0 2 1 (-1) = Inr ?a"
    using True init_base_step [of 2 10 g 1 "1/10" 0 1] by simp
  have t0: "\<exists>s. advance_to 0 ?a = Ok s \<and> last_epoch s = 0 \<and>
          group_lrs s = replicate (length g) 0 \<and> get_lr s = Inr (replicate (length g) 0)"
    by (simp add: run_eval)
  have t1: "\<exists>s. advance_to 1 ?a = Ok s \<and> last_epoch s = 1 \<and>
          group_lrs s = replicate (length g) (1/20) \<and> get_lr s = Inr (replicate (length g) (1/20))"
    by (simp add: run_eval)
  have t2: "\<exists>s. advance_to 2 ?a = Ok s \<and> last_epoch s = 2 \<and>
          group_lrs s = replicate (length g) (1/10) \<and> get_lr s = Inr (replicate (length g) (1/10))"
    by (simp add: run_eval)
  have t6: "\<exists>s. advance_to 6 ?a = Ok s \<and> last_epoch s = 6 \<and>
          group_lrs s = replicate (length g) (1/20) \<and> get_lr s = Inr (replicate (length g) (1/20))"
    by (simp add: run_eval)
  have t10: "\<exists>s. advance_to 10 ?a = Ok s \<and> last_epoch s = 10 \<and> cycle s = 1 \<and>
          group_lrs s = replicate (length g) 0 \<and> get_lr s = Inr (replicate (length g) 0)"
    by (simp add: run_eval)
  from i t0 t1 t2 t6 t10 show ?thesis by blast
next
  case False
  let ?a = "\<lparr>first_cycle_steps = 10, cycle_mult = 1, base_max_lr = 1/10, max_lr = 1/10, min_lr = 0,
          warmup_steps = 2, gamma = 1, cur_cycle_steps = real_of_int 10, cycle = 0,
          step_in_cycle = real_of_int (-1), last_epoch = -1,
          base_lrs = replicate (length g) 0, group_lrs = replicate (length g) 0\<rparr>"
  have i: "init b g 10 1 (1/10) 0 2 1 (-1) = Inr ?a"
    using False init_no_base_step [of 2 10 g 1 "1/10" 0 1] by simp
  have t0: "\<exists>s. advance_to 0 ?a = Ok s \<and> last_epoch s = 0 \<and>
          group_lrs s = replicate (length g) 0 \<and> get_lr s = Inr (replicate (length g) 0)"
    by (simp add: run_eval)
  have t1: "\<exists>s. advance_to 1 ?a = Ok s \<and> last_epoch s = 1 \<and>
          group_lrs s = replicate (length g) (1/20) \<and> get_lr s = Inr (replicate (length g) (1/20))"
    by (simp add: run_eval)
  have t2: "\<exists>s. advance_to 2 ?a = Ok s \<and> last_epoch s = 2 \<and>
          group_lrs s = replicate (length g) (1/10) \<and> get_lr s = Inr (replicate (length g) (1/10))"
    by (simp add: run_eval)
  have t6: "\<exists>s. advance_to 6 ?a = Ok s \<and> last_epoch s = 6 \<and>
          group_lrs s = replicate (length g) (1/20) \<and> get_lr s = Inr (replicate (length g) (1/20))"
    by (simp add: run_eval)
  have t10: "\<exists>s. advance_to 10 ?a = Ok s \<and> last_epoch s = 10 \<and> cycle s = 1 \<and>
          group_lrs s = replicate (length g) 0 \<and> get_lr s = Inr (replicate (length g) 0)"
    by (simp add: run_eval)
  from i t0 t1 t2 t6 t10 show ?thesis by blast
qed

subsection \<open>Explicit placement against repeated calls\<close>

text \<open>
  C1 does not hold of the code. For \<^verbatim>\<open>cycle_mult = 1.0\<close> the explicit call \<^verbatim>\<open>step(t)\<close> on a new
  object and the repeated calls of \<^verbatim>\<open>step()\<close> up to the counter \<open>t\<close> agree on \<^verbatim>\<open>cycle\<close>,
  \<^verbatim>\<open>step_in_cycle\<close> and the rates (\<open>explicit_implicit_agree_unit\<close>). For the other
  multipliers the closed form of lines 84-87 sums cycle lengths
  \<^verbatim>\<open>first_cycle_steps * cycle_mult ** k\<close>, while the restart of line 77 makes the next length
  \<^verbatim>\<open>int((cur_cycle_steps - warmup_steps) * cycle_mult) + warmup_steps\<close>. With
  \<^verbatim>\<open>first_cycle_steps = 2\<close>, \<^verbatim>\<open>warmup_steps = 1\<close>, \<^verbatim>\<open>cycle_mult = 2.0\<close> and \<open>t = 5\<close> the explicit
  call is in cycle 1 at position 3 with rate 0.02575, the repeated calls are in cycle 2 at
  position 0 with rate 0.001. With \<^verbatim>\<open>first_cycle_steps = 3\<close>, \<^verbatim>\<open>warmup_steps = 0\<close>,
  \<^verbatim>\<open>cycle_mult = 1.5\<close> and \<open>t = 13\<close> the explicit call is in cycle 2 at position 6 of a cycle
  of length 6.75, the repeated calls are in cycle 3 at position 0.
\<close>

theorem explicit_implicit_disagree:
  "(\<exists>s0 se si. init True [new_group (1/5)] 2 2 (1/10) (1/1000) 1 1 (-1) = Inr s0 \<and>
        step s0 (Some 5) = Ok se \<and> advance_to 5 s0 = Ok si \<and>
        last_epoch se = 5 \<and> cycle se = 1 \<and> step_in_cycle se = 3 \<and> group_lrs se = [103/4000] \<and>
        last_epoch si = 5 \<and> cycle si = 2 \<and> step_in_cycle si = 0 \<and> group_lrs si = [1/1000]) \<and>
   (\<exists>s0 se si. init False [new_group (1/5)] 2 2 (1/10) (1/1000) 1 1 (-1) = Inr s0 \<and>
        step s0 (Some 5) = Ok se \<and> advance_to 5 s0 = Ok si \<and>
        last_epoch se = 5 \<and> cycle se = 1 \<and> step_in_cycle se = 3 \<and> group_lrs se = [103/4000] \<and>
        last_epoch si = 5 \<and> cycle si = 2 \<and> step_in_cycle si = 0 \<and> group_lrs si = [1/1000]) \<and>
   (\<exists>s0 se si. init True [new_group (1/5)] 3 (3/2) (1/10) (1/1000) 0 1 (-1) = Inr s0 \<and>
        step s0 (Some 13) = Ok se \<and> advance_to 13 s0 = Ok si \<and>
        last_epoch se = 13 \<and> cycle se = 2 \<and> step_in_cycle se = 6 \<and> cur_cycle_steps se = 27/4 \<and>
        last_epoch si = 13 \<and> cycle si = 3 \<and> step_in_cycle si = 0 \<and> cur_cycle_steps si = 9)"
proof (intro conjI)
  let ?a = "\<lparr>first_cycle_steps = 2, cycle_mult = 2, base_max_lr = 1/10, max_lr = 1/10, min_lr = 1/1000,
          warmup_steps = 1, gamma = 1, cur_cycle_steps = real_of_int 2, cycle = 0,
          step_in_cycle = 0, last_epoch = 0,
          base_lrs = replicate (length [new_group (1/5)]) (1/1000),
          group_lrs = replicate (length [new_group (1/5)]) (1/1000)\<rparr>"
  have i: "init True [new_group (1/5)] 2 2 (1/10) (1/1000) 1 1 (-1) = Inr ?a"
    by (rule init_base_step) simp_all
  have e: "\<exists>se. step ?a (Some 5) = Ok se \<and> last_epoch se = 5 \<and> cycle se = 1 \<and> step_in_cycle se = 3 \<and>
              group_lrs se = [103/4000]"
    using log_two_seven_halves by (simp add: step_eval cos_120')
  have m: "\<exists>si. advance_to 5 ?a = Ok si \<and> last_epoch si = 5 \<and> cycle si = 2 \<and> step_in_cycle si = 0 \<and>
              group_lrs si = [1/1000]"
    by (simp add: run_eval)
  from i e m show "\<exists>s0 se si. init True [new_group (1/5)] 2 2 (1/10) (1/1000) 1 1 (-1) = Inr s0 \<and>
        step s0 (Some 5) = Ok se \<and> advance_to 5 s0 = Ok si \<and>
        last_epoch se = 5 \<and> cycle se = 1 \<and> step_in_cycle se = 3 \<and> group_lrs se = [103/4000] \<and>
        last_epoch si = 5 \<and> cycle si = 2 \<and> step_in_cycle si = 0 \<and> group_lrs si = [1/1000]"
    by blast
next
  let ?a = "\<lparr>first_cycle_steps = 2, cycle_mult = 2, base_max_lr = 1/10, max_lr = 1/10, min_lr = 1/1000,
          warmup_steps = 1, gamma = 1, cur_cycle_steps = real_of_int 2, cycle = 0,
          step_in_cycle = real_of_int (-1), last_epoch = -1,
          base_lrs = replicate (length [new_group (1/5)]) (1/1000),
          group_lrs = replicate (length [new_group (1/5)]) (1/1000)\<rparr>"
  have i: "init False [new_group (1/5)] 2 2 (1/10) (1/1000) 1 1 (-1) = Inr ?a"
    by (rule init_no_base_step) simp
  have e: "\<exists>se. step ?a (Some 5) = Ok se \<and> last_epoch se = 5 \<and> cycle se = 1 \<and> step_in_cycle se = 3 \<and>
              group_lrs se = [103/4000]"
    using log_two_seven_halves by (simp add: step_eval cos_120')
  have m: "\<exists>si. advance_to 5 ?a = Ok si \<and> last_epoch si = 5 \<and> cycle si = 2 \<and> step_in_cycle si = 0 \<and>
              group_lrs si = [1/1000]"
    by (simp add: run_eval)
  from i e m show "\<exists>s0 se si. init False [new_group (1/5)] 2 2 (1/10) (1/1000) 1 1 (-1) = Inr s0 \<and>
        step s0 (Some 5) = Ok se \<and> advance_to 5 s0 = Ok si \<and>
        last_epoch se = 5 \<and> cycle se = 1 \<and> step_in_cycle se = 3 \<and> group_lrs se = [103/4000] \<and>
        last_epoch si = 5 \<and> cycle si = 2 \<and> step_in_cycle si = 0 \<and> group_lrs si = [1/1000]"
    by blast
next
  let ?a = "\<lparr>first_cycle_steps = 3, cycle_mult = 3/2, base_max_lr = 1/10, max_lr = 1/10, min_lr = 1/1000,
          warmup_steps = 0, gamma = 1, cur_cycle_steps = real_of_int 3, cycle = 0,
          step_in_cycle = 0, last_epoch = 0,
          base_lrs = replicate (length [new_group (1/5)]) (1/1000),
          group_lrs = replicate (length [new_group (1/5)]) (1/1000)\<rparr>"
  have i: "init True [new_group (1/5)] 3 (3/2) (1/10) (1/1000) 0 1 (-1) = Inr ?a"
    by (rule init_base_step) simp_all
  have e: "\<exists>se. step ?a (Some 13) = Ok se \<and> last_epoch se = 13 \<and> cycle se = 2 \<and> step_in_cycle se = 6 \<and>
              cur_cycle_steps se = 27/4"
    using log_three_halves py_int_fifteen_halves by (simp add: step_eval power2_eq_square)
  have m: "\<exists>si. advance_to 13 ?a = Ok si \<and> last_epoch si = 13 \<and> cycle si = 3 \<and> step_in_cycle si = 0 \<and>
              cur_cycle_steps si = 9"
    by (simp add: run_eval)
  from i e m show "\<exists>s0 se si. init True [new_group (1/5)] 3 (3/2) (1/10) (1/1000) 0 1 (-1) = Inr s0 \<and>
        step s0 (Some 13) = Ok se \<and> advance_to 13 s0 = Ok si \<and>
        last_epoch se = 13 \<and> cycle se = 2 \<and> step_in_cycle se = 6 \<and> cur_cycle_steps se = 27/4 \<and>
        last_epoch si = 13 \<and> cycle si = 3 \<and> step_in_cycle si = 0 \<and> cur_cycle_steps si = 9"
    by blast
qed

end
